theory Spec2Isabelle
  imports Complex_Main "HOL-Library.Word" "HOL-Library.Signed_Division"
    "HOL-Library.Monad_Syntax"
begin

unbundle bit_operations_syntax

section \<open>Data model of BMP.C\<close>

type_synonym byte = "8 word"

text \<open>
  The two packed header structs. \<open>int32_t\<close> fields are kept as 32-bit words and read
  with \<open>sint\<close>.
\<close>

record BMPHeader =
  bfType :: "16 word"
  bfSize :: "32 word"
  bfReserved1 :: "16 word"
  bfReserved2 :: "16 word"
  bfOffBits :: "32 word"

record BMPInfoHeader =
  biSize :: "32 word"
  biWidth :: "32 word"
  biHeight :: "32 word"
  biPlanes :: "16 word"
  biBitCount :: "16 word"
  biCompression :: "32 word"
  biSizeImage :: "32 word"
  biXPelsPerMeter :: "32 word"
  biYPelsPerMeter :: "32 word"
  biClrUsed :: "32 word"
  biClrImportant :: "32 word"

text \<open>
  \<open>Pixel24\<close>: the struct \<open>{ uint8_t b, g, r; }\<close>. The selectors carry a prefix, since
  \<open>b\<close>, \<open>g\<close> and \<open>r\<close> are wanted as variable names.
\<close>

datatype Pixel24 = Pixel24 (px_b: byte) (px_g: byte) (px_r: byte)

subsection \<open>C \<open>int\<close>\<close>

text \<open>
  A C \<open>int\<close> is a mathematical integer in the 32-bit range. Signed overflow is
  undefined behaviour in C; the model makes it the value \<open>None\<close>, as it does for every
  other undefined operation (an access outside an array, a conversion of a floating
  value that does not fit). \<open>Some\<close> is a defined execution.
\<close>

definition INT_MAX :: int where
  "INT_MAX = 2147483647"

definition INT_MIN :: int where
  "INT_MIN = - 2147483648"

definition cint :: "int \<Rightarrow> int option" where
  "cint v = (if INT_MIN \<le> v \<and> v \<le> INT_MAX then Some v else None)"

text \<open>Function for clamping an integer to [0,255] (\<open>clamp_int_to_u8\<close>).\<close>

definition clamp_int_to_u8 :: "int \<Rightarrow> byte" where
  "clamp_int_to_u8 v = (if v < 0 then 0 else if v > 255 then 255 else word_of_int v)"

subsection \<open>Byte layout of the headers\<close>

text \<open>
  \<open>fread(&fh, sizeof(fh), 1, f)\<close> copies 14 bytes of the file over the packed struct, and
  \<open>fwrite\<close> copies them back; on the little-endian machines the program is written for
  (and that the format prescribes) a field is its bytes, least significant first.
\<close>

definition rd16 :: "byte list \<Rightarrow> 16 word" where
  "rd16 bs = word_of_nat (unat (bs ! 0) + 256 * unat (bs ! 1))"

definition rd32 :: "byte list \<Rightarrow> 32 word" where
  "rd32 bs = word_of_nat (unat (bs ! 0) + 256 * unat (bs ! 1) + 65536 * unat (bs ! 2)
                + 16777216 * unat (bs ! 3))"

definition wr16 :: "16 word \<Rightarrow> byte list" where
  "wr16 w = [word_of_nat (unat w mod 256), word_of_nat (unat w div 256)]"

definition wr32 :: "32 word \<Rightarrow> byte list" where
  "wr32 w = [word_of_nat (unat w mod 256), word_of_nat (unat w div 256 mod 256),
             word_of_nat (unat w div 65536 mod 256), word_of_nat (unat w div 16777216)]"

definition segment :: "nat \<Rightarrow> nat \<Rightarrow> 'a list \<Rightarrow> 'a list" where
  "segment off n xs = take n (drop off xs)"

definition parse_fh :: "byte list \<Rightarrow> BMPHeader" where
  "parse_fh bs = \<lparr> bfType = rd16 (segment 0 2 bs), bfSize = rd32 (segment 2 4 bs),
        bfReserved1 = rd16 (segment 6 2 bs), bfReserved2 = rd16 (segment 8 2 bs),
        bfOffBits = rd32 (segment 10 4 bs) \<rparr>"

definition parse_ih :: "byte list \<Rightarrow> BMPInfoHeader" where
  "parse_ih bs = \<lparr> biSize = rd32 (segment 0 4 bs), biWidth = rd32 (segment 4 4 bs),
        biHeight = rd32 (segment 8 4 bs), biPlanes = rd16 (segment 12 2 bs),
        biBitCount = rd16 (segment 14 2 bs), biCompression = rd32 (segment 16 4 bs),
        biSizeImage = rd32 (segment 20 4 bs), biXPelsPerMeter = rd32 (segment 24 4 bs),
        biYPelsPerMeter = rd32 (segment 28 4 bs), biClrUsed = rd32 (segment 32 4 bs),
        biClrImportant = rd32 (segment 36 4 bs) \<rparr>"

definition bytes_fh :: "BMPHeader \<Rightarrow> byte list" where
  "bytes_fh fh = wr16 (bfType fh) @ wr32 (bfSize fh) @ wr16 (bfReserved1 fh)
        @ wr16 (bfReserved2 fh) @ wr32 (bfOffBits fh)"

definition bytes_ih :: "BMPInfoHeader \<Rightarrow> byte list" where
  "bytes_ih ih = wr32 (biSize ih) @ wr32 (biWidth ih) @ wr32 (biHeight ih)
        @ wr16 (biPlanes ih) @ wr16 (biBitCount ih) @ wr32 (biCompression ih)
        @ wr32 (biSizeImage ih) @ wr32 (biXPelsPerMeter ih) @ wr32 (biYPelsPerMeter ih)
        @ wr32 (biClrUsed ih) @ wr32 (biClrImportant ih)"

text \<open>A pixel is three bytes in memory and in the file: b, g, r.\<close>

definition bytes_px :: "Pixel24 \<Rightarrow> byte list" where
  "bytes_px p = [px_b p, px_g p, px_r p]"

fun pixels_of :: "byte list \<Rightarrow> Pixel24 list" where
  "pixels_of (x # y # z # rest) = Pixel24 x y z # pixels_of rest"
| "pixels_of _ = []"

subsection \<open>Streams\<close>

text \<open>
  A file opened for reading is its bytes and a position. \<open>fread size count\<close> takes what
  is left of \<open>size * count\<close> bytes and returns the number of whole items. A position
  past the end is allowed by \<open>fseek\<close>; reading there finds nothing.
\<close>

record rstream =
  rdata :: "byte list"
  rpos :: nat

definition fread :: "nat \<Rightarrow> nat \<Rightarrow> rstream \<Rightarrow> byte list \<times> nat \<times> rstream" where
  "fread sz count f =
     (let got = take (sz * count) (drop (rpos f) (rdata f))
      in (got, length got div sz, f\<lparr>rpos := rpos f + length got\<rparr>))"

definition fseek_set :: "nat \<Rightarrow> rstream \<Rightarrow> rstream" where
  "fseek_set off f = f\<lparr>rpos := off\<rparr>"

definition fseek_cur :: "nat \<Rightarrow> rstream \<Rightarrow> rstream" where
  "fseek_cur d f = f\<lparr>rpos := rpos f + d\<rparr>"

subsection \<open>The heap\<close>

text \<open>
  \<open>malloc\<close> either fails (\<open>None\<close>) or returns a block whose cells hold indeterminate
  values: \<open>Some init\<close>, cell \<open>i\<close> holding \<open>init i\<close>.
\<close>

definition malloc :: "(nat \<Rightarrow> 'a) option \<Rightarrow> nat \<Rightarrow> 'a list option" where
  "malloc heap n = (case heap of None \<Rightarrow> None | Some init \<Rightarrow> Some (map init [0..<n]))"

text \<open>Writing \<open>xs\<close> into an array from index \<open>off\<close> on.\<close>

definition store :: "'a list \<Rightarrow> nat \<Rightarrow> 'a list \<Rightarrow> 'a list" where
  "store arr off xs = take off arr @ xs @ drop (off + length xs) arr"

section \<open>\<open>load_bmp24\<close>\<close>

text \<open>
  Padding per row (multiple of 4 bytes): \<open>(4 - (row_bytes % 4)) % 4\<close>, written twice
  in the source, in \<open>load_bmp24\<close> and in \<open>save_bmp24\<close>. The \<open>%\<close> of C truncates
  towards zero, which is \<open>smod\<close>.
\<close>

definition row_padding :: "int \<Rightarrow> int" where
  "row_padding row_bytes = (4 - (row_bytes smod 4)) smod 4"

text \<open>
  What a function returning \<open>int\<close> 0 or 1 hands to its caller: \<open>Return0\<close>, or
  \<open>Return1\<close> with the values stored through the out-parameters.
\<close>

datatype 'a ret = Return0 | Return1 'a

text \<open>
  The row loop of \<open>load_bmp24\<close> (\<open>for (int y = 0; y < height; ++y)\<close>): the row read at
  step \<open>y\<close> goes to \<open>&pixels[dest_y * width]\<close>. The first component of the result is
  what was printed on \<open>stderr\<close>.
\<close>

function load_rows ::
  "int \<Rightarrow> int \<Rightarrow> int \<Rightarrow> int \<Rightarrow> rstream \<Rightarrow> Pixel24 list
     \<Rightarrow> (string list \<times> Pixel24 list ret) option" where
  "load_rows width height padding y f pixels =
     (if y < height then
        (let dest_y = height - 1 - y in
         case cint (dest_y * width) of
           None \<Rightarrow> None
         | Some off \<Rightarrow>
            (case fread 3 (nat width) f of
               (got, n, f') \<Rightarrow>
                 if n \<noteq> nat width then Some ([''Lectura de fila incompleta.''], Return0)
                 else load_rows width height padding (y + 1)
                        (if padding \<noteq> 0 then fseek_cur (nat padding) f' else f')
                        (store pixels (nat off) (pixels_of got))))
      else Some ([], Return1 pixels))"
  by pat_completeness auto
termination
  by (relation "measure (\<lambda>(width, height, padding, y, f, pixels). nat (height - y))") auto

declare load_rows.simps [simp del]

text \<open>
  \<open>load_bmp24\<close>. The file is \<open>None\<close> when \<open>fopen\<close> fails, its bytes otherwise.
  \<open>perror\<close> prints the given text followed by the system's reason, which is left out.
\<close>

definition load_bmp24 ::
  "byte list option \<Rightarrow> (nat \<Rightarrow> Pixel24) option
     \<Rightarrow> (string list \<times> (BMPHeader \<times> BMPInfoHeader \<times> Pixel24 list) ret) option" where
  "load_bmp24 file heap =
     (case file of
        None \<Rightarrow> Some ([''No se pudo abrir el archivo''], Return0)
      | Some bytes \<Rightarrow>
         (case fread 14 1 \<lparr>rdata = bytes, rpos = 0\<rparr> of
            (fhb, n1, f1) \<Rightarrow>
              if n1 \<noteq> 1 then Some ([], Return0)
              else
               (case fread 40 1 f1 of
                  (ihb, n2, f2) \<Rightarrow>
                    if n2 \<noteq> 1 then Some ([], Return0)
                    else
                     (let fh = parse_fh fhb; ih = parse_ih ihb in
                      if bfType fh \<noteq> 0x4D42
                      then Some ([''No es un BMP valido (firma BM).''], Return0)
                      else if biBitCount ih \<noteq> 24 \<or> biCompression ih \<noteq> 0
                      then Some ([''Solo se soporta BMP 24-bpp sin compresion.''], Return0)
                      else if sint (biWidth ih) \<le> 0 \<or> sint (biHeight ih) \<le> 0
                      then Some ([''Solo se soportan dimensiones positivas.''], Return0)
                      else
                       (let f3 = fseek_set (unat (bfOffBits fh)) f2;
                            width = sint (biWidth ih);
                            height = sint (biHeight ih)
                        in case cint (width * 3) of
                             None \<Rightarrow> None
                           | Some row_bytes \<Rightarrow>
                              (let padding = row_padding row_bytes in
                               case malloc heap (nat width * nat height) of
                                 None \<Rightarrow> Some ([], Return0)
                               | Some pixels \<Rightarrow>
                                  (case load_rows width height padding 0 f3 pixels of
                                     None \<Rightarrow> None
                                   | Some (err, Return0) \<Rightarrow> Some (err, Return0)
                                   | Some (err, Return1 px) \<Rightarrow>
                                       Some (err, Return1 (fh, ih, px)))))))))"

section \<open>\<open>save_bmp24\<close>\<close>

text \<open>
  A file opened for writing is the bytes that have reached the device, the bytes still
  held in the buffer of the stream, the size of that buffer, and the number of bytes
  the device still takes. \<open>fwrite\<close> puts \<open>size * count\<close> bytes into the buffer and reports
  all of them written; only when they do not fit there are the buffer and they handed
  to the device, which takes what it has room for, and only then can the number of
  whole items reported be short. \<open>fclose\<close> hands what the buffer holds to the device and
  leaves the file; \<open>save_bmp24\<close> does not look at its result.
\<close>

record wstream =
  wdata :: "byte list"
  wpend :: "byte list"
  wcap :: nat
  wroom :: nat

definition fwrite :: "byte list \<Rightarrow> nat \<Rightarrow> nat \<Rightarrow> wstream \<Rightarrow> nat \<times> wstream" where
  "fwrite buf sz count f =
     (let bs = take (sz * count) buf in
      if length (wpend f) + length bs \<le> wcap f then (count, f\<lparr>wpend := wpend f @ bs\<rparr>)
      else
       (let put = take (wroom f) (wpend f @ bs)
        in (if length put = length (wpend f) + length bs then count
            else (length put - length (wpend f)) div sz,
            f\<lparr>wdata := wdata f @ put, wpend := [], wroom := wroom f - length put\<rparr>)))"

definition fclose :: "wstream \<Rightarrow> byte list" where
  "fclose f = wdata f @ take (wroom f) (wpend f)"

text \<open>\<open>(size_t)width\<close>, on a machine with a 64-bit \<open>size_t\<close>.\<close>

definition size_t :: "int \<Rightarrow> nat" where
  "size_t v = nat (v mod 2 ^ 64)"

text \<open>
  The row loop of \<open>save_bmp24\<close> (\<open>for (int y = height - 1; y >= 0; --y)\<close>). The row
  handed to \<open>fwrite\<close> must lie inside \<open>pixels\<close>. The result of the padding write is
  not looked at.
\<close>

function save_rows ::
  "int \<Rightarrow> int \<Rightarrow> Pixel24 list \<Rightarrow> int \<Rightarrow> wstream \<Rightarrow> (unit ret \<times> wstream) option" where
  "save_rows width padding pixels y f =
     (if y \<ge> 0 then
        (case cint (y * width) of
           None \<Rightarrow> None
         | Some off \<Rightarrow>
            if off < 0 \<or> nat off + size_t width > length pixels then None
            else
             (case fwrite (concat (map bytes_px (segment (nat off) (size_t width) pixels)))
                     3 (size_t width) f of
                (n, f') \<Rightarrow>
                  if n \<noteq> size_t width then Some (Return0, f')
                  else save_rows width padding pixels (y - 1)
                         (if padding \<noteq> 0
                          then snd (fwrite [0, 0, 0] 1 (size_t padding) f')
                          else f')))
      else Some (Return1 (), f))"
  by pat_completeness auto
termination
  by (relation "measure (\<lambda>(width, padding, pixels, y, f). nat (y + 1))") auto

declare save_rows.simps [simp del]

text \<open>
  \<open>save_bmp24\<close>. The first argument is \<open>None\<close> when \<open>fopen\<close> fails, and otherwise the
  number of bytes the device takes; the second is the size of the buffer the C library
  gives the stream. The result is the text printed on \<open>stderr\<close>, the value returned,
  and the file left behind by \<open>fclose\<close> (none when it could not be created).
\<close>

definition save_bmp24 ::
  "nat option \<Rightarrow> nat \<Rightarrow> BMPInfoHeader \<Rightarrow> Pixel24 list
     \<Rightarrow> (string list \<times> unit ret \<times> byte list option) option" where
  "save_bmp24 dev bufsiz src_ih pixels =
     (case dev of
        None \<Rightarrow> Some ([''No se pudo crear el archivo''], Return0, None)
      | Some room \<Rightarrow>
         (let f = \<lparr>wdata = [], wpend = [], wcap = bufsiz, wroom = room\<rparr>;
              width = sint (biWidth src_ih);
              height = sint (biHeight src_ih)
          in case cint (width * 3) of
               None \<Rightarrow> None
             | Some row_bytes \<Rightarrow>
                (let padding = row_padding row_bytes in
                 case cint (row_bytes + padding) of
                   None \<Rightarrow> None
                 | Some stride \<Rightarrow>
                    (let image_size = (word_of_int stride :: 32 word) * biHeight src_ih;
                         ih = src_ih\<lparr> biSize := 40, biCompression := 0, biBitCount := 24,
                                 biPlanes := 1, biSizeImage := image_size \<rparr>;
                         fh = \<lparr> bfType = 0x4D42, bfSize = 54 + image_size,
                                 bfReserved1 = 0, bfReserved2 = 0, bfOffBits = 54 \<rparr>
                     in case fwrite (bytes_fh fh) 14 1 f of
                          (n1, f1) \<Rightarrow>
                            if n1 \<noteq> 1 then Some ([], Return0, Some (fclose f1))
                            else
                             (case fwrite (bytes_ih ih) 40 1 f1 of
                                (n2, f2) \<Rightarrow>
                                  if n2 \<noteq> 1 then Some ([], Return0, Some (fclose f2))
                                  else
                                   (case save_rows width padding pixels (height - 1) f2 of
                                      None \<Rightarrow> None
                                    | Some (res, f3) \<Rightarrow> Some ([], res, Some (fclose f3))))))))"

section \<open>Sample streams\<close>

text \<open>
  A 54-byte header pair with the given signature, header size, bit count, width and
  height, the pixel data following at once.
\<close>

definition ex_header :: "16 word \<Rightarrow> 32 word \<Rightarrow> 16 word \<Rightarrow> 32 word \<Rightarrow> 32 word \<Rightarrow> byte list" where
  "ex_header sig hsize bpp w h =
     bytes_fh \<lparr>bfType = sig, bfSize = 0, bfReserved1 = 0, bfReserved2 = 0, bfOffBits = 54\<rparr>
     @ bytes_ih \<lparr>biSize = hsize, biWidth = w, biHeight = h, biPlanes = 1, biBitCount = bpp,
          biCompression = 0, biSizeImage = 0, biXPelsPerMeter = 0, biYPelsPerMeter = 0,
          biClrUsed = 0, biClrImportant = 0\<rparr>"

text \<open>
  Two rows of two pixels: the first stored row red, the last stored row blue, each
  row followed by two padding bytes that are not zero.
\<close>

definition ex_pixels :: "byte list" where
  "ex_pixels = [0, 0, 255, 0, 0, 255, 9, 9, 255, 0, 0, 255, 0, 0, 7, 7]"

definition ex_heap :: "(nat \<Rightarrow> Pixel24) option" where
  "ex_heap = Some (\<lambda>i. Pixel24 1 2 3)"

section \<open>What a caller can tell apart\<close>

text \<open>
  The text on \<open>stderr\<close> and whether the function returned 1, with the out-parameters
  forgotten.
\<close>

definition outcome :: "(string list \<times> 'a ret) option \<Rightarrow> (string list \<times> bool) option" where
  "outcome res = map_option (\<lambda>(err, v). (err, v \<noteq> Return0)) res"

section \<open>Rows of the buffer and of the file\<close>

text \<open>
  Row \<open>y\<close> of a buffer \<open>w\<close> pixels wide, and the pixels of the \<open>r\<close>-th row stored in a
  file whose pixel data start at byte \<open>off\<close>: rows are \<open>3 * w\<close> bytes and their padding
  apart.
\<close>

definition buffer_row :: "Pixel24 list \<Rightarrow> nat \<Rightarrow> nat \<Rightarrow> Pixel24 list" where
  "buffer_row px w y = segment (y * w) w px"

definition stored_row :: "byte list \<Rightarrow> nat \<Rightarrow> nat \<Rightarrow> nat \<Rightarrow> Pixel24 list" where
  "stored_row bs off w r =
     pixels_of (segment (off + r * (3 * w + nat (row_padding (int w * 3)))) (3 * w) bs)"

text \<open>
  The file \<open>save_bmp24\<close> writes for the buffer decoded from \<open>ex_pixels\<close>: the sizes are
  filled in and the padding is zero.
\<close>

definition ex_saved :: "byte list" where
  "ex_saved =
    [66, 77, 70, 0, 0, 0, 0, 0, 0, 0, 54, 0, 0, 0, 40, 0, 0, 0, 2, 0, 0, 0,
     2, 0, 0, 0, 1, 0, 24, 0, 0, 0, 0, 0, 16, 0, 0, 0, 0, 0, 0, 0, 0, 0, 0,
     0, 0, 0, 0, 0, 0, 0, 0, 0, 0, 0, 255, 0, 0, 255, 0, 0, 255, 0, 0, 255,
     0, 0, 0, 0]"

section \<open>Floating point\<close>

text \<open>
  The values of an IEEE 754 binary format: the finite ones as rationals, the two
  infinities (\<open>Infinity True\<close> the negative one) and NaN. Zero carries no sign: the
  sign of a zero shows only in a division by zero, which the model treats as undefined.
\<close>

datatype fp = Finite rat | Infinity bool | NaN

text \<open>The number of binary digits of a natural number.\<close>

fun blen :: "nat \<Rightarrow> nat" where
  "blen n = (if n = 0 then 0 else Suc (blen (n div 2)))"

declare blen.simps [simp del]

definition pow2 :: "int \<Rightarrow> rat" where
  "pow2 e = (if 0 \<le> e then 2 ^ nat e else 1 / 2 ^ nat (- e))"

text \<open>\<open>ilog2 a\<close> is the exponent \<open>e\<close> with \<open>2^e \<le> a < 2^(e+1)\<close>, for \<open>a > 0\<close>.\<close>

definition ilog2 :: "rat \<Rightarrow> int" where
  "ilog2 a = (if 1 \<le> a then int (blen (nat \<lfloor>a\<rfloor>)) - 1
              else - int (blen (nat (\<lceil>1 / a\<rceil> - 1))))"

text \<open>Rounding to the nearest integer, ties to the even one.\<close>

definition round_even :: "rat \<Rightarrow> int" where
  "round_even z =
     (let f = \<lfloor>z\<rfloor>; d = z - of_int f
      in if d < 1 / 2 then f else if 1 / 2 < d then f + 1 else if even f then f else f + 1)"

text \<open>
  \<open>fp_round p emax x\<close>: the value of the format with \<open>p\<close> significant bits and largest
  exponent \<open>emax\<close> that is nearest to \<open>x\<close> (round to nearest, ties to even: the rounding
  mode a C program starts in). Below the smallest normal exponent the spacing stays
  that of the subnormal numbers; a result of \<open>2^(emax+1)\<close> or more is an infinity.
\<close>

definition fp_round :: "nat \<Rightarrow> int \<Rightarrow> rat \<Rightarrow> fp" where
  "fp_round p emax x =
     (if x = 0 then Finite 0
      else
       (let e = max (ilog2 \<bar>x\<bar>) (1 - emax);
            q = pow2 (e - int p + 1);
            y = of_int (round_even (\<bar>x\<bar> / q)) * q
        in if pow2 (emax + 1) \<le> y then Infinity (x < 0) else Finite (sgn x * y)))"

text \<open>
  The arithmetic of the format. A division by zero is left undefined (\<open>None\<close>), as in
  the C standard proper; all else follows IEEE 754.
\<close>

fun fp_add :: "nat \<Rightarrow> int \<Rightarrow> fp \<Rightarrow> fp \<Rightarrow> fp" where
  "fp_add p emax (Finite x) (Finite y) = fp_round p emax (x + y)"
| "fp_add p emax NaN _ = NaN"
| "fp_add p emax _ NaN = NaN"
| "fp_add p emax (Infinity s) (Infinity t) = (if s = t then Infinity s else NaN)"
| "fp_add p emax (Infinity s) (Finite y) = Infinity s"
| "fp_add p emax (Finite x) (Infinity t) = Infinity t"

fun fp_mul :: "nat \<Rightarrow> int \<Rightarrow> fp \<Rightarrow> fp \<Rightarrow> fp" where
  "fp_mul p emax (Finite x) (Finite y) = fp_round p emax (x * y)"
| "fp_mul p emax NaN _ = NaN"
| "fp_mul p emax _ NaN = NaN"
| "fp_mul p emax (Infinity s) (Infinity t) = Infinity (s \<noteq> t)"
| "fp_mul p emax (Infinity s) (Finite y) = (if y = 0 then NaN else Infinity (s \<noteq> (y < 0)))"
| "fp_mul p emax (Finite x) (Infinity t) = (if x = 0 then NaN else Infinity ((x < 0) \<noteq> t))"

fun fp_is_zero :: "fp \<Rightarrow> bool" where
  "fp_is_zero (Finite x) = (x = 0)"
| "fp_is_zero _ = False"

fun fp_div :: "nat \<Rightarrow> int \<Rightarrow> fp \<Rightarrow> fp \<Rightarrow> fp option" where
  "fp_div p emax (Finite x) (Finite y) = (if y = 0 then None else Some (fp_round p emax (x / y)))"
| "fp_div p emax NaN d = (if fp_is_zero d then None else Some NaN)"
| "fp_div p emax (Finite x) NaN = Some NaN"
| "fp_div p emax (Infinity s) NaN = Some NaN"
| "fp_div p emax (Infinity s) (Infinity t) = Some NaN"
| "fp_div p emax (Infinity s) (Finite y) = (if y = 0 then None else Some (Infinity (s \<noteq> (y < 0))))"
| "fp_div p emax (Finite x) (Infinity t) = Some (Finite 0)"

text \<open>
  The conversion \<open>(int)\<close> of a floating value: the fraction is dropped, and the result
  is undefined when the integer does not fit (or there is none).
\<close>

fun fp_to_int :: "fp \<Rightarrow> int option" where
  "fp_to_int (Finite x) = cint (if 0 \<le> x then \<lfloor>x\<rfloor> else \<lceil>x\<rceil>)"
| "fp_to_int _ = None"

text \<open>\<open>double\<close> is binary64 and \<open>float\<close> binary32; expressions are evaluated in their type.\<close>

definition dround :: "rat \<Rightarrow> fp" where "dround = fp_round 53 1023"
definition dadd :: "fp \<Rightarrow> fp \<Rightarrow> fp" where "dadd = fp_add 53 1023"
definition dmul :: "fp \<Rightarrow> fp \<Rightarrow> fp" where "dmul = fp_mul 53 1023"

definition fround :: "rat \<Rightarrow> fp" where "fround = fp_round 24 127"
definition fadd :: "fp \<Rightarrow> fp \<Rightarrow> fp" where "fadd = fp_add 24 127"
definition fmul :: "fp \<Rightarrow> fp \<Rightarrow> fp" where "fmul = fp_mul 24 127"
definition fdiv :: "fp \<Rightarrow> fp \<Rightarrow> fp option" where "fdiv = fp_div 24 127"

text \<open>An integer that the format holds exactly, such as a pixel channel.\<close>

definition fp_of_int :: "int \<Rightarrow> fp" where
  "fp_of_int v = Finite (of_int v)"

section \<open>\<open>to_grayscale\<close>\<close>

text \<open>
  The loop \<open>for (int i = a; i < n; ++i) body\<close> over a state; an undefined step makes the
  loop undefined.
\<close>

function for_loop :: "int \<Rightarrow> int \<Rightarrow> (int \<Rightarrow> 's \<Rightarrow> 's option) \<Rightarrow> 's \<Rightarrow> 's option" where
  "for_loop i n body s =
     (if i < n then (case body i s of None \<Rightarrow> None | Some s' \<Rightarrow> for_loop (i + 1) n body s')
      else Some s)"
  by pat_completeness auto
termination
  by (relation "measure (\<lambda>(i, n, body, s). nat (n - i))") auto

declare for_loop.simps [simp del]

text \<open>Reading and writing \<open>a[i]\<close> for an \<open>int\<close> index: outside the array it is undefined.\<close>

definition rd :: "'a list \<Rightarrow> int \<Rightarrow> 'a option" where
  "rd a i = (if 0 \<le> i \<and> nat i < length a then Some (a ! nat i) else None)"

definition wr :: "'a list \<Rightarrow> int \<Rightarrow> 'a \<Rightarrow> 'a list option" where
  "wr a i v = (if 0 \<le> i \<and> nat i < length a then Some (a[nat i := v]) else None)"

text \<open>
  \<open>(int)(0.299 * r + 0.587 * g + 0.114 * b + 0.5)\<close>, clamped: the three constants are the
  doubles nearest to the decimal literals, and each product and sum is rounded.
\<close>

definition gray_of :: "byte \<Rightarrow> byte \<Rightarrow> byte \<Rightarrow> byte option" where
  "gray_of r g b =
     map_option clamp_int_to_u8
       (fp_to_int
          (dadd (dadd (dadd (dmul (dround (299 / 1000)) (fp_of_int (uint r)))
                            (dmul (dround (587 / 1000)) (fp_of_int (uint g))))
                      (dmul (dround (114 / 1000)) (fp_of_int (uint b))))
                (dround (1 / 2))))"

definition to_grayscale :: "Pixel24 list \<Rightarrow> int \<Rightarrow> int \<Rightarrow> Pixel24 list option" where
  "to_grayscale pixels width height =
     (case cint (width * height) of
        None \<Rightarrow> None
      | Some n \<Rightarrow>
         for_loop 0 n
           (\<lambda>i px. case rd px i of
                      None \<Rightarrow> None
                    | Some p \<Rightarrow>
                       (case gray_of (px_r p) (px_g p) (px_b p) of
                          None \<Rightarrow> None
                        | Some g8 \<Rightarrow> wr px i (Pixel24 g8 g8 g8)))
           pixels)"

section \<open>\<open>convolve3x3\<close>\<close>

text \<open>
  The kernel \<open>const float k[3][3]\<close> is a function of the two indices. Its sum is taken
  in \<open>float\<close>, row by row, and replaced by 1 when it compares equal to zero.
\<close>

definition kernel_sum :: "(nat \<Rightarrow> nat \<Rightarrow> fp) \<Rightarrow> fp" where
  "kernel_sum k = foldl fadd (Finite 0) (concat (map (\<lambda>j. map (\<lambda>i. k j i) [0, 1, 2]) [0, 1, 2]))"

definition norm_factor :: "(nat \<Rightarrow> nat \<Rightarrow> fp) \<Rightarrow> fp" where
  "norm_factor k = (let sumk = kernel_sum k in if fp_is_zero sumk then Finite 1 else sumk)"

text \<open>
  The 3x3 window centred at \<open>(x, y)\<close>: \<open>acc += pix * k[dy + 1][dx + 1]\<close> with
  \<open>pix = src[yy * width + xx]\<close>, in \<open>float\<close>.
\<close>

definition window_sum :: "byte list \<Rightarrow> int \<Rightarrow> (nat \<Rightarrow> nat \<Rightarrow> fp) \<Rightarrow> int \<Rightarrow> int \<Rightarrow> fp option" where
  "window_sum src width k x y =
     for_loop (- 1) 2
       (\<lambda>dy acc. for_loop (- 1) 2
          (\<lambda>dx acc. do {
               m \<leftarrow> cint ((y + dy) * width);
               idx \<leftarrow> cint (m + (x + dx));
               pix \<leftarrow> rd src idx;
               Some (fadd acc (fmul (fp_of_int (uint pix)) (k (nat (dy + 1)) (nat (dx + 1)))))
             }) acc)
       (Finite 0)"

text \<open>\<open>clamp_int_to_u8((int)(acc / sumk + 0.5f))\<close>.\<close>

definition conv_value ::
  "byte list \<Rightarrow> int \<Rightarrow> (nat \<Rightarrow> nat \<Rightarrow> fp) \<Rightarrow> fp \<Rightarrow> int \<Rightarrow> int \<Rightarrow> byte option" where
  "conv_value src width k sumk x y = do {
     acc \<leftarrow> window_sum src width k x y;
     q \<leftarrow> fdiv acc sumk;
     val \<leftarrow> fp_to_int (fadd q (Finite (1 / 2)));
     Some (clamp_int_to_u8 val)
   }"

text \<open>The cell \<open>a[row * width + col]\<close>, the index computed in \<open>int\<close>.\<close>

definition cell :: "int \<Rightarrow> int \<Rightarrow> int \<Rightarrow> int option" where
  "cell width row col = do { m \<leftarrow> cint (row * width); cint (m + col) }"

definition copy_cell :: "byte list \<Rightarrow> int \<Rightarrow> int \<Rightarrow> int \<Rightarrow> byte list \<Rightarrow> byte list option" where
  "copy_cell src width row col dst = do {
     i \<leftarrow> cell width row col;
     v \<leftarrow> rd src i;
     wr dst i v
   }"

text \<open>The loops of \<open>convolve3x3\<close>, in the order of the source.\<close>

definition extract_plane :: "Pixel24 list \<Rightarrow> int \<Rightarrow> byte list \<Rightarrow> byte list option" where
  "extract_plane pixels n src0 =
     for_loop 0 n (\<lambda>i src. do { p \<leftarrow> rd pixels i; wr src i (px_r p) }) src0"

definition convolve_interior ::
  "byte list \<Rightarrow> int \<Rightarrow> int \<Rightarrow> int \<Rightarrow> (nat \<Rightarrow> nat \<Rightarrow> fp) \<Rightarrow> fp \<Rightarrow> byte list \<Rightarrow> byte list option" where
  "convolve_interior src width hm1 wm1 k sumk dst0 =
     for_loop 1 hm1
       (\<lambda>y dst. for_loop 1 wm1
          (\<lambda>x dst. do {
               v \<leftarrow> conv_value src width k sumk x y;
               i \<leftarrow> cell width y x;
               wr dst i v
             }) dst)
       dst0"

definition copy_rows :: "byte list \<Rightarrow> int \<Rightarrow> int \<Rightarrow> byte list \<Rightarrow> byte list option" where
  "copy_rows src width hm1 dst0 =
     for_loop 0 width
       (\<lambda>x dst. do {
            dst \<leftarrow> copy_cell src width 0 x dst;
            copy_cell src width hm1 x dst
          }) dst0"

definition copy_columns :: "byte list \<Rightarrow> int \<Rightarrow> int \<Rightarrow> int \<Rightarrow> byte list \<Rightarrow> byte list option" where
  "copy_columns src width height wm1 dst0 =
     for_loop 0 height
       (\<lambda>y dst. do {
            dst \<leftarrow> copy_cell src width y 0 dst;
            copy_cell src width y wm1 dst
          }) dst0"

definition write_back :: "byte list \<Rightarrow> int \<Rightarrow> Pixel24 list \<Rightarrow> Pixel24 list option" where
  "write_back dst n pixels =
     for_loop 0 n (\<lambda>i px. do { v \<leftarrow> rd dst i; wr px i (Pixel24 v v v) }) pixels"

text \<open>
  \<open>convolve3x3\<close>. The two heaps stand for the two calls of \<open>malloc\<close>; both are made
  before either result is looked at. The size \<open>(size_t)width * (size_t)height\<close> is a
  product of unsigned 64-bit numbers.
\<close>

definition convolve3x3 ::
  "(nat \<Rightarrow> byte) option \<Rightarrow> (nat \<Rightarrow> byte) option \<Rightarrow> Pixel24 list \<Rightarrow> int \<Rightarrow> int
     \<Rightarrow> (nat \<Rightarrow> nat \<Rightarrow> fp) \<Rightarrow> Pixel24 list option" where
  "convolve3x3 heap_src heap_dst pixels width height k =
     (let sz = size_t (int (size_t width) * int (size_t height)) in
      case (malloc heap_src sz, malloc heap_dst sz) of
        (Some src0, Some dst0) \<Rightarrow> do {
            n \<leftarrow> cint (width * height);
            src \<leftarrow> extract_plane pixels n src0;
            let sumk = norm_factor k;
            hm1 \<leftarrow> cint (height - 1);
            wm1 \<leftarrow> cint (width - 1);
            dst \<leftarrow> convolve_interior src width hm1 wm1 k sumk dst0;
            dst \<leftarrow> copy_rows src width hm1 dst;
            dst \<leftarrow> copy_columns src width height wm1 dst;
            write_back dst n pixels
          }
      | _ \<Rightarrow> Some pixels)"

text \<open>The three kernels of the menu.\<close>

definition kernel_of :: "int list list \<Rightarrow> nat \<Rightarrow> nat \<Rightarrow> fp" where
  "kernel_of rows j i = fp_of_int (rows ! j ! i)"

definition sobelX :: "nat \<Rightarrow> nat \<Rightarrow> fp" where
  "sobelX = kernel_of [[- 1, 0, 1], [- 2, 0, 2], [- 1, 0, 1]]"

definition sobelY :: "nat \<Rightarrow> nat \<Rightarrow> fp" where
  "sobelY = kernel_of [[- 1, - 2, - 1], [0, 0, 0], [1, 2, 1]]"

definition laplacian :: "nat \<Rightarrow> nat \<Rightarrow> fp" where
  "laplacian = kernel_of [[0, - 1, 0], [- 1, 4, - 1], [0, - 1, 0]]"

definition gray_px :: "byte \<Rightarrow> Pixel24" where
  "gray_px v = Pixel24 v v v"

section \<open>A sample image\<close>

text \<open>
  Three rows of three pixels whose red channel is 10, but for 50 in the middle, and
  whose other channels differ from it; two scratch blocks with arbitrary contents.
\<close>

definition ex_image :: "Pixel24 list" where
  "ex_image = [Pixel24 1 2 10, Pixel24 1 2 10, Pixel24 1 2 10,
               Pixel24 1 2 10, Pixel24 3 4 50, Pixel24 1 2 10,
               Pixel24 1 2 10, Pixel24 1 2 10, Pixel24 1 2 10]"

definition ex_src_heap :: "(nat \<Rightarrow> byte) option" where
  "ex_src_heap = Some (\<lambda>i. 7)"

definition ex_dst_heap :: "(nat \<Rightarrow> byte) option" where
  "ex_dst_heap = Some (\<lambda>i. 9)"

section \<open>The luminance formula in exact arithmetic\<close>

text \<open>
  \<open>spec_gray\<close> follows the words of the specification, not the source: the luminance
  \<open>0.299 R + 0.587 G + 0.114 B\<close> as a rational number, one half added, the fraction
  dropped, the result clamped. \<open>luma_tie\<close> says that the luminance plus one half is a
  whole number.
\<close>

definition spec_gray :: "byte \<Rightarrow> byte \<Rightarrow> byte \<Rightarrow> byte" where
  "spec_gray r g b =
     clamp_int_to_u8
       \<lfloor>299 / 1000 * rat_of_int (uint r) + 587 / 1000 * rat_of_int (uint g)
          + 114 / 1000 * rat_of_int (uint b) + 1 / 2\<rfloor>"

definition luma_tie :: "byte \<Rightarrow> byte \<Rightarrow> byte \<Rightarrow> bool" where
  "luma_tie r g b = ((299 * uint r + 587 * uint g + 114 * uint b + 500) mod 1000 = 0)"

section \<open>Properties\<close>


lemma load_rows_step:
  "y < height \<Longrightarrow> load_rows width height padding y f pixels =
        (case cint ((height - 1 - y) * width) of
           None \<Rightarrow> None
         | Some off \<Rightarrow>
            (case fread 3 (nat width) f of
               (got, n, f') \<Rightarrow>
                 if n \<noteq> nat width then Some ([''Lectura de fila incompleta.''], Return0)
                 else load_rows width height padding (y + 1)
                        (if padding \<noteq> 0 then fseek_cur (nat padding) f' else f')
                        (store pixels (nat off) (pixels_of got))))"
  by (subst load_rows.simps) (simp add: Let_def)

lemma load_rows_done:
  "\<not> y < height \<Longrightarrow> load_rows width height padding y f pixels = Some ([], Return1 pixels)"
  by (subst load_rows.simps) simp

lemmas eval_defs = load_bmp24_def ex_header_def ex_pixels_def ex_heap_def bytes_fh_def bytes_ih_def
  wr16_def wr32_def fread_def parse_fh_def parse_ih_def segment_def rd16_def rd32_def
  fseek_set_def fseek_cur_def cint_def INT_MAX_def INT_MIN_def malloc_def
  load_rows_step load_rows_done store_def row_padding_def smod_int_alt_def Let_def

lemma row_padding_nonneg: "0 \<le> rb \<Longrightarrow> row_padding rb = (4 - rb mod 4) mod 4"
proof -
  assume a: "0 \<le> rb"
  have m: "0 \<le> rb mod 4" "rb mod 4 < 4" by simp_all
  have "rb smod 4 = rb mod 4"
    using a by (cases "rb = 0") (simp_all add: smod_int_alt_def sgn_if)
  moreover have "(4 - rb mod 4) smod 4 = (4 - rb mod 4) mod 4"
    using m by (simp add: smod_int_alt_def sgn_if)
  ultimately show ?thesis by (simp add: row_padding_def)
qed



lemma len1: "length bs < 14 \<Longrightarrow> load_bmp24 (Some bs) heap = Some ([], Return0)"
  by (simp add: load_bmp24_def fread_def Let_def)

lemma len2: "14 \<le> length bs \<Longrightarrow> length bs < 54 \<Longrightarrow> load_bmp24 (Some bs) heap = Some ([], Return0)"
  by (simp add: load_bmp24_def fread_def Let_def min_def)

lemma hdr_reads:
  "54 \<le> length bs \<Longrightarrow> load_bmp24 (Some bs) heap =
     (let fh = parse_fh (segment 0 14 bs); ih = parse_ih (segment 14 40 bs) in
                      if bfType fh \<noteq> 0x4D42
                      then Some ([''No es un BMP valido (firma BM).''], Return0)
                      else if biBitCount ih \<noteq> 24 \<or> biCompression ih \<noteq> 0
                      then Some ([''Solo se soporta BMP 24-bpp sin compresion.''], Return0)
                      else if sint (biWidth ih) \<le> 0 \<or> sint (biHeight ih) \<le> 0
                      then Some ([''Solo se soportan dimensiones positivas.''], Return0)
                      else
                       (let f3 = \<lparr>rdata = bs, rpos = unat (bfOffBits fh)\<rparr>;
                            width = sint (biWidth ih);
                            height = sint (biHeight ih)
                        in case cint (width * 3) of
                             None \<Rightarrow> None
                           | Some row_bytes \<Rightarrow>
                              (let padding = row_padding row_bytes in
                               case malloc heap (nat width * nat height) of
                                 None \<Rightarrow> Some ([], Return0)
                               | Some pixels \<Rightarrow>
                                  (case load_rows width height padding 0 f3 pixels of
                                     None \<Rightarrow> None
                                   | Some (err, Return0) \<Rightarrow> Some (err, Return0)
                                   | Some (err, Return1 px) \<Rightarrow>
                                       Some (err, Return1 (fh, ih, px))))))"
proof -
  assume l: "54 \<le> length bs"
  have r1: "fread 14 (Suc 0) \<lparr>rdata = bs, rpos = 0\<rparr> = (segment 0 14 bs, 1, \<lparr>rdata = bs, rpos = 14\<rparr>)"
    using l by (simp add: fread_def segment_def)
  have r2: "fread 40 (Suc 0) \<lparr>rdata = bs, rpos = 14\<rparr> = (segment 14 40 bs, 1, \<lparr>rdata = bs, rpos = 54\<rparr>)"
    using l by (simp add: fread_def segment_def)
  show ?thesis
    unfolding load_bmp24_def by (simp add: r1 r2 fseek_set_def Let_def)
qed

text \<open>
  Claim C6, amended. \<open>load_bmp24\<close> returns 0 on a stream cut inside the 54 header
  bytes (printing nothing), on a wrong signature, on a bit count other than 24 or a
  compression other than 0, and on a width or height that is not positive; the last
  three print a message of their own on \<open>stderr\<close>. The value returned is 0 each time.
\<close>

theorem load_bmp24_rejections:
  "(length bs < 54 \<longrightarrow> load_bmp24 (Some bs) heap = Some ([], Return0))
   \<and> (54 \<le> length bs \<and> bfType (parse_fh (segment 0 14 bs)) \<noteq> 0x4D42 \<longrightarrow>
        load_bmp24 (Some bs) heap = Some ([''No es un BMP valido (firma BM).''], Return0))
   \<and> (54 \<le> length bs \<and> bfType (parse_fh (segment 0 14 bs)) = 0x4D42
        \<and> (biBitCount (parse_ih (segment 14 40 bs)) \<noteq> 24
             \<or> biCompression (parse_ih (segment 14 40 bs)) \<noteq> 0) \<longrightarrow>
        load_bmp24 (Some bs) heap
          = Some ([''Solo se soporta BMP 24-bpp sin compresion.''], Return0))
   \<and> (54 \<le> length bs \<and> bfType (parse_fh (segment 0 14 bs)) = 0x4D42
        \<and> biBitCount (parse_ih (segment 14 40 bs)) = 24
        \<and> biCompression (parse_ih (segment 14 40 bs)) = 0
        \<and> (sint (biWidth (parse_ih (segment 14 40 bs))) \<le> 0
             \<or> sint (biHeight (parse_ih (segment 14 40 bs))) \<le> 0) \<longrightarrow>
        load_bmp24 (Some bs) heap
          = Some ([''Solo se soportan dimensiones positivas.''], Return0))"
proof -
  have "length bs < 54 \<Longrightarrow> load_bmp24 (Some bs) heap = Some ([], Return0)"
    using len1 [of bs heap] len2 [of bs heap] by (cases "length bs < 14") simp_all
  then show ?thesis
    by (auto simp add: hdr_reads Let_def)
qed

lemma ex_header_bytes:
  "ex_header sig hsize bpp w h =
     wr16 sig @ [0, 0, 0, 0, 0, 0, 0, 0, 54, 0, 0, 0] @ wr32 hsize @ wr32 w @ wr32 h
     @ [1, 0] @ wr16 bpp @ [0, 0, 0, 0, 0, 0, 0, 0, 0, 0, 0, 0, 0, 0, 0, 0, 0, 0, 0, 0, 0, 0, 0, 0]"
  by (simp add: ex_header_def bytes_fh_def bytes_ih_def wr16_def wr32_def)

theorem load_bmp24_rejections_witness:
  "load_bmp24 (Some (take 20 (ex_header 0x4D42 40 24 2 2 @ ex_pixels))) ex_heap
      = Some ([], Return0)
   \<and> load_bmp24 (Some (ex_header 0x5858 40 24 2 2 @ ex_pixels)) ex_heap
      = Some ([''No es un BMP valido (firma BM).''], Return0)
   \<and> load_bmp24 (Some (ex_header 0x4D42 40 8 2 2 @ ex_pixels)) ex_heap
      = Some ([''Solo se soporta BMP 24-bpp sin compresion.''], Return0)
   \<and> load_bmp24 (Some (ex_header 0x4D42 40 24 (- 10) 2 @ ex_pixels)) ex_heap
      = Some ([''Solo se soportan dimensiones positivas.''], Return0)"
  using load_bmp24_rejections [of "take 20 (ex_header 0x4D42 40 24 2 2 @ ex_pixels)" ex_heap]
    load_bmp24_rejections [of "ex_header 0x5858 40 24 2 2 @ ex_pixels" ex_heap]
    load_bmp24_rejections [of "ex_header 0x4D42 40 8 2 2 @ ex_pixels" ex_heap]
    load_bmp24_rejections [of "ex_header 0x4D42 40 24 (- 10) 2 @ ex_pixels" ex_heap]
  by (simp add: ex_header_bytes ex_pixels_def wr16_def wr32_def parse_fh_def parse_ih_def
        segment_def rd16_def rd32_def)

text \<open>
  The four rejected sample streams hand the same value to the caller: there is no tag
  that tells them apart.
\<close>

theorem load_bmp24_errors_not_distinct:
  "snd (the (load_bmp24 (Some (take 20 (ex_header 0x4D42 40 24 2 2 @ ex_pixels))) ex_heap))
     = snd (the (load_bmp24 (Some (ex_header 0x5858 40 24 2 2 @ ex_pixels)) ex_heap))
   \<and> snd (the (load_bmp24 (Some (ex_header 0x5858 40 24 2 2 @ ex_pixels)) ex_heap))
     = snd (the (load_bmp24 (Some (ex_header 0x4D42 40 8 2 2 @ ex_pixels)) ex_heap))
   \<and> snd (the (load_bmp24 (Some (ex_header 0x4D42 40 8 2 2 @ ex_pixels)) ex_heap))
     = snd (the (load_bmp24 (Some (ex_header 0x4D42 40 24 (- 10) 2 @ ex_pixels)) ex_heap))"
  by (simp add: eval_defs)

lemma load_rows_outcome:
  "length (rdata f) = length (rdata g) \<Longrightarrow> rpos f = rpos g \<Longrightarrow>
     outcome (load_rows w h p y f px) = outcome (load_rows w h p y g px')"
proof (induction w h p y f px arbitrary: g px' rule: load_rows.induct)
  case (1 width height padding y f pixels)
  show ?case
  proof (cases "y < height")
    case False
    then show ?thesis by (simp add: load_rows_done outcome_def)
  next
    case True
    show ?thesis
    proof (cases "cint ((height - 1 - y) * width)")
      case None
      with True show ?thesis by (simp add: load_rows_step)
    next
      case (Some off)
      obtain got n f' where fr: "fread 3 (nat width) f = (got, n, f')"
        by (cases "fread 3 (nat width) f") auto
      obtain got2 n2 g' where gr: "fread 3 (nat width) g = (got2, n2, g')"
        by (cases "fread 3 (nat width) g") auto
      from fr gr "1.prems" have same: "n2 = n" "length (rdata g') = length (rdata f')"
          "rpos g' = rpos f'"
        by (auto simp add: fread_def Let_def)
      show ?thesis
      proof (cases "n = nat width")
        case False
        with True Some fr gr same show ?thesis by (simp add: load_rows_step)
      next
        case n: True
        let ?f2 = "if padding \<noteq> 0 then fseek_cur (nat padding) f' else f'"
        let ?g2 = "if padding \<noteq> 0 then fseek_cur (nat padding) g' else g'"
        have l2: "length (rdata ?f2) = length (rdata ?g2)" and p2: "rpos ?f2 = rpos ?g2"
          using same by (simp_all add: fseek_cur_def)
        have "outcome (load_rows width height padding (y + 1) ?f2
                 (store pixels (nat off) (pixels_of got)))
              = outcome (load_rows width height padding (y + 1) ?g2
                 (store px' (nat off) (pixels_of got2)))"
          using "1.IH" [OF True refl Some fr [symmetric] refl _ l2 p2] n by simp
        with True Some fr gr same n show ?thesis by (simp add: load_rows_step)
      qed
    qed
  qed
qed

lemma parse_ih_tail:
  assumes "drop 4 x = drop 4 y"
  shows "biWidth (parse_ih x) = biWidth (parse_ih y)"
    and "biHeight (parse_ih x) = biHeight (parse_ih y)"
    and "biBitCount (parse_ih x) = biBitCount (parse_ih y)"
    and "biCompression (parse_ih x) = biCompression (parse_ih y)"
proof -
  have "drop k (drop 4 x) = drop k (drop 4 y)" for k
    using assms by simp
  then have seg: "segment (4 + k) n x = segment (4 + k) n y" for k n
    by (simp add: segment_def add.commute)
  show "biWidth (parse_ih x) = biWidth (parse_ih y)"
    using seg [of 0 4] by (simp add: parse_ih_def)
  show "biHeight (parse_ih x) = biHeight (parse_ih y)"
    using seg [of 4 4] by (simp add: parse_ih_def)
  show "biBitCount (parse_ih x) = biBitCount (parse_ih y)"
    using seg [of 10 2] by (simp add: parse_ih_def)
  show "biCompression (parse_ih x) = biCompression (parse_ih y)"
    using seg [of 12 4] by (simp add: parse_ih_def)
qed

text \<open>
  Claim C9, amended. \<open>load_bmp24\<close> never looks at \<open>biSize\<close>: putting any value in
  bytes 14 to 17 of a stream changes neither what is printed nor whether the stream is
  accepted.
\<close>

theorem load_bmp24_ignores_biSize:
  "54 \<le> length bs \<Longrightarrow>
     outcome (load_bmp24 (Some (take 14 bs @ wr32 v @ drop 18 bs)) heap)
       = outcome (load_bmp24 (Some bs) heap)"
proof -
  assume l: "54 \<le> length bs"
  let ?bs = "take 14 bs @ wr32 v @ drop 18 bs"
  have len: "length ?bs = length bs"
    using l by (simp add: wr32_def)
  have fh: "segment 0 14 ?bs = segment 0 14 bs"
    using l by (simp add: segment_def)
  have "drop 4 (segment 14 40 ?bs) = drop 4 (segment 14 40 bs)"
    using l by (simp add: segment_def wr32_def drop_take)
  note ih = parse_ih_tail [OF this]
  have rows: "outcome (load_rows w h p 0 \<lparr>rdata = ?bs, rpos = k\<rparr> px)
        = outcome (load_rows w h p 0 \<lparr>rdata = bs, rpos = k\<rparr> px)" for w h p k px
    by (rule load_rows_outcome) (use len in simp_all)
  have oc: "outcome (case r of None \<Rightarrow> None | Some (err, Return0) \<Rightarrow> Some (err, Return0)
                     | Some (err, Return1 px) \<Rightarrow> Some (err, Return1 (a, b, px)))
            = outcome r" for r :: "(string list \<times> Pixel24 list ret) option" 
      and a :: BMPHeader and b :: BMPInfoHeader
    by (auto simp add: outcome_def split: option.splits ret.splits)
  show ?thesis
    using l len
    by (simp add: hdr_reads fh ih Let_def oc rows split: option.splits)
qed

theorem load_bmp24_ignores_biSize_witness:
  "54 \<le> length (ex_header 0x4D42 40 24 1 1 @ [1, 2, 3])
   \<and> outcome (load_bmp24 (Some (ex_header 0x4D42 124 24 1 1 @ [1, 2, 3])) ex_heap)
       = Some ([], True)
   \<and> outcome (load_bmp24 (Some (ex_header 0x4D42 40 24 1 1 @ [1, 2, 3])) ex_heap)
       = Some ([], True)"
  using load_bmp24_ignores_biSize [of "ex_header 0x4D42 40 24 1 1 @ [1, 2, 3]" 124 ex_heap]
  by (simp add: eval_defs outcome_def)

text \<open>A one-pixel stream whose header size field is 124 is accepted.\<close>

theorem load_bmp24_accepts_other_header_size:
  "load_bmp24 (Some (ex_header 0x4D42 124 24 1 1 @ [1, 2, 3])) ex_heap
     = Some ([], Return1
         (\<lparr>bfType = 0x4D42, bfSize = 0, bfReserved1 = 0, bfReserved2 = 0, bfOffBits = 54\<rparr>,
          \<lparr>biSize = 124, biWidth = 1, biHeight = 1, biPlanes = 1, biBitCount = 24,
             biCompression = 0, biSizeImage = 0, biXPelsPerMeter = 0, biYPelsPerMeter = 0,
             biClrUsed = 0, biClrImportant = 0\<rparr>,
          [Pixel24 1 2 3]))"
  by (simp add: eval_defs)

lemma pixels_of_length: "length (pixels_of bs) = length bs div 3"
  by (induction bs rule: pixels_of.induct) simp_all

lemma pixels_of_bytes: "pixels_of (concat (map bytes_px ps)) = ps"
  by (induction ps) (simp_all add: bytes_px_def)

lemma length_bytes_px: "length (concat (map bytes_px ps)) = 3 * length ps"
  by (induction ps) (simp_all add: bytes_px_def)

lemma length_store: "off + length xs \<le> length arr \<Longrightarrow> length (store arr off xs) = length arr"
  by (simp add: store_def)

lemma nth_store:
  "off + length xs \<le> length arr \<Longrightarrow> i < length arr \<Longrightarrow>
     store arr off xs ! i = (if off \<le> i \<and> i < off + length xs then xs ! (i - off) else arr ! i)"
  by (auto simp add: store_def nth_append)

lemma length_segment: "off + n \<le> length xs \<Longrightarrow> length (segment off n xs) = n"
  by (simp add: segment_def)

lemma nth_segment: "off + n \<le> length xs \<Longrightarrow> i < n \<Longrightarrow> segment off n xs ! i = xs ! (off + i)"
  by (simp add: segment_def)

lemma segment_eqI:
  assumes "off + n \<le> length xs" "length ys = n" "\<And>i. i < n \<Longrightarrow> xs ! (off + i) = ys ! i"
  shows "segment off n xs = ys"
  using assms by (intro nth_equalityI) (simp_all add: length_segment nth_segment)

lemma fread_rows:
  "fread 3 n f = (got, k, f') \<Longrightarrow>
     got = take (3 * n) (drop (rpos f) (rdata f)) \<and> k = length got div 3
     \<and> rdata f' = rdata f \<and> rpos f' = rpos f + length got"
  by (auto simp add: fread_def Let_def)

lemma fread_full:
  assumes "fread 3 n f = (got, n, f')" and "0 < n"
  shows "rpos f + 3 * n \<le> length (rdata f)" "got = segment (rpos f) (3 * n) (rdata f)"
    "length got = 3 * n" "rdata f' = rdata f" "rpos f' = rpos f + 3 * n"
proof -
  from fread_rows [OF assms(1)]
  have g: "got = take (3 * n) (drop (rpos f) (rdata f))" and k: "n = length got div 3"
    and d: "rdata f' = rdata f" and p: "rpos f' = rpos f + length got" by blast+
  have m: "length got = min (3 * n) (length (rdata f) - rpos f)"
    unfolding g by simp
  then have "length got \<le> 3 * n" by simp
  with k have l: "length got = 3 * n" by arith
  from m l assms(2) show "rpos f + 3 * n \<le> length (rdata f)" by arith
  show "got = segment (rpos f) (3 * n) (rdata f)" using g by (simp add: segment_def)
  show "length got = 3 * n" by fact
  show "rdata f' = rdata f" by fact
  show "rpos f' = rpos f + 3 * n" using p l by simp
qed

lemma fread_short:
  assumes "fread 3 n f = (got, k, f')" and "rpos f + 3 * n \<le> length (rdata f)"
  shows "k = n"
proof -
  from fread_rows [OF assms(1)]
  have g: "got = take (3 * n) (drop (rpos f) (rdata f))" and k: "k = length got div 3"
    by blast+
  have "length got = min (3 * n) (length (rdata f) - rpos f)"
    unfolding g by simp
  with assms(2) have "length got = 3 * n" by arith
  with k show ?thesis by simp
qed

lemma load_rows_rows:
  assumes "load_rows w h p y f px = Some (err, Return1 px')"
    and "0 < w" "0 \<le> y" "0 \<le> p" "length px = nat w * nat h"
  shows "err = [] \<and> length px' = length px
     \<and> (\<forall>k < nat (h - y).
            rpos f + k * (3 * nat w + nat p) + 3 * nat w \<le> length (rdata f)
            \<and> segment ((nat (h - y) - 1 - k) * nat w) (nat w) px'
                = pixels_of (segment (rpos f + k * (3 * nat w + nat p)) (3 * nat w) (rdata f)))
     \<and> (\<forall>i. nat (h - y) * nat w \<le> i \<and> i < length px \<longrightarrow> px' ! i = px ! i)"
  using assms
proof (induction w h p y f px rule: load_rows.induct)
  case (1 width height padding y f pixels)
  show ?case
  proof (cases "y < height")
    case False
    with "1.prems" show ?thesis by (simp add: load_rows_done)
  next
    case True
    let ?W = "nat width"
    let ?S = "3 * nat width + nat padding"
    define m where "m = nat (height - (y + 1))"
    have n: "nat (height - y) = Suc m"
      using True by (simp add: m_def)
    have W: "0 < ?W" using "1.prems"(2) by simp
    obtain off where off: "cint ((height - 1 - y) * width) = Some off"
      using "1.prems"(1) True by (simp add: load_rows_step split: option.splits)
    then have offv: "off = (height - 1 - y) * width"
      by (simp add: cint_def split: if_splits)
    have hy: "height - 1 - y = int m" using True by (simp add: m_def)
    have noff: "nat off = m * ?W"
      using "1.prems"(2) by (simp add: offv hy nat_mult_distrib)
    obtain got k f' where fr: "fread 3 ?W f = (got, k, f')"
      by (cases "fread 3 ?W f") auto
    have k: "k = ?W"
      using "1.prems"(1) True off fr by (simp add: load_rows_step split: if_splits)
    note ff = fread_full [OF fr [unfolded k] W]
    let ?f2 = "if padding \<noteq> 0 then fseek_cur (nat padding) f' else f'"
    let ?px1 = "store pixels (nat off) (pixels_of got)"
    have rec: "load_rows width height padding (y + 1) ?f2 ?px1 = Some (err, Return1 px')"
      using "1.prems"(1) True off fr k by (simp add: load_rows_step)
    have lrow: "length (pixels_of got) = ?W"
      by (simp add: pixels_of_length ff(3))
    have "Suc m \<le> nat height" using "1.prems"(3) n by arith
    then have "Suc m * ?W \<le> nat height * ?W" by (rule mult_le_mono1)
    then have bound: "nat off + ?W \<le> length pixels"
      by (simp add: noff "1.prems"(5) mult.commute)
    have len1: "length ?px1 = length pixels"
      using bound by (simp add: length_store lrow)
    have f2: "rdata ?f2 = rdata f" "rpos ?f2 = rpos f + ?S"
      using ff(4,5) "1.prems"(4) by (auto simp add: fseek_cur_def)
    have IH: "err = [] \<and> length px' = length ?px1
       \<and> (\<forall>k < m. rpos ?f2 + k * ?S + 3 * ?W \<le> length (rdata ?f2)
            \<and> segment ((m - 1 - k) * ?W) ?W px'
                = pixels_of (segment (rpos ?f2 + k * ?S) (3 * ?W) (rdata ?f2)))
       \<and> (\<forall>i. m * ?W \<le> i \<and> i < length ?px1 \<longrightarrow> px' ! i = ?px1 ! i)"
      using "1.IH" [OF True refl off fr [symmetric] refl _ rec "1.prems"(2) _ "1.prems"(4)]
        k "1.prems"(3,5) len1 by (simp add: m_def)
    from IH have e: "err = []" and lpx: "length px' = length pixels"
      by (simp_all add: len1)
    have keep: "px' ! i = ?px1 ! i" if "m * ?W \<le> i" "i < length pixels" for i
      using IH that by (simp add: len1)
    have row0: "segment (m * ?W) ?W px' = pixels_of got"
    proof (rule segment_eqI)
      show "m * ?W + ?W \<le> length px'" using bound by (simp add: noff lpx)
      show "length (pixels_of got) = ?W" by fact
      fix i assume i: "i < ?W"
      then have "px' ! (m * ?W + i) = ?px1 ! (m * ?W + i)"
        using bound by (intro keep) (simp_all add: noff)
      also have "\<dots> = pixels_of got ! i"
        using bound i by (simp add: nth_store lrow noff)
      finally show "px' ! (m * ?W + i) = pixels_of got ! i" .
    qed
    have rows: "rpos f + k * ?S + 3 * ?W \<le> length (rdata f)
            \<and> segment ((Suc m - 1 - k) * ?W) ?W px'
                = pixels_of (segment (rpos f + k * ?S) (3 * ?W) (rdata f))" if "k < Suc m" for k
    proof (cases k)
      case 0
      then show ?thesis using row0 ff(1,2) by simp
    next
      case (Suc j)
      with that have j: "j < m" by simp
      with IH have "rpos ?f2 + j * ?S + 3 * ?W \<le> length (rdata ?f2)
            \<and> segment ((m - 1 - j) * ?W) ?W px'
                = pixels_of (segment (rpos ?f2 + j * ?S) (3 * ?W) (rdata ?f2))"
        by blast
      then show ?thesis
        unfolding f2 Suc by (simp add: algebra_simps)
    qed
    have old: "px' ! i = pixels ! i" if "Suc m * ?W \<le> i" "i < length pixels" for i
    proof -
      have "px' ! i = ?px1 ! i" using that by (intro keep) simp_all
      also have "\<dots> = pixels ! i"
        using bound that by (simp add: nth_store lrow noff)
      finally show ?thesis .
    qed
    show ?thesis
      unfolding n using e lpx rows old by blast
  qed
qed

lemma row_padding_range: "0 \<le> rb \<Longrightarrow> 0 \<le> row_padding rb \<and> row_padding rb \<le> 3"
  by (simp add: row_padding_nonneg)

lemma load_rows_first:
  "load_rows w h p y f px = Some (err, Return1 px') \<Longrightarrow> y < h \<Longrightarrow> 0 < w \<Longrightarrow>
     (h - 1 - y) * w \<le> INT_MAX"
  by (simp add: load_rows_step cint_def split: option.splits if_splits)

lemma load_bmp24_accepted:
  assumes "load_bmp24 (Some bs) heap = Some (err, Return1 (fh, ih, px))"
  shows "54 \<le> length bs" "fh = parse_fh (segment 0 14 bs)" "ih = parse_ih (segment 14 40 bs)"
    "bfType fh = 0x4D42" "biBitCount ih = 24" "biCompression ih = 0"
    "0 < sint (biWidth ih)" "0 < sint (biHeight ih)" "sint (biWidth ih) * 3 \<le> INT_MAX"
    "\<exists>init. heap = Some init \<and>
        load_rows (sint (biWidth ih)) (sint (biHeight ih)) (row_padding (sint (biWidth ih) * 3)) 0
          \<lparr>rdata = bs, rpos = unat (bfOffBits fh)\<rparr>
          (map init [0..<nat (sint (biWidth ih)) * nat (sint (biHeight ih))])
        = Some (err, Return1 px)"
proof -
  show l: "54 \<le> length bs"
  proof (rule ccontr)
    assume "\<not> 54 \<le> length bs"
    then have "load_bmp24 (Some bs) heap = Some ([], Return0)"
      using len1 [of bs heap] len2 [of bs heap] by (cases "length bs < 14") simp_all
    with assms show False by simp
  qed
  note a = assms [unfolded hdr_reads [OF l] Let_def]
  from a show fhv: "fh = parse_fh (segment 0 14 bs)"
    by (auto split: if_splits option.splits ret.splits)
  from a show ihv: "ih = parse_ih (segment 14 40 bs)"
    by (auto split: if_splits option.splits ret.splits)
  from a show "bfType fh = 0x4D42"
    unfolding fhv by (auto split: if_splits)
  from a show "biBitCount ih = 24" "biCompression ih = 0"
    unfolding ihv by (auto split: if_splits)
  from a show "0 < sint (biWidth ih)" "0 < sint (biHeight ih)"
    unfolding ihv by (auto split: if_splits)
  from a show "sint (biWidth ih) * 3 \<le> INT_MAX"
    unfolding ihv by (auto simp add: cint_def split: if_splits option.splits)
  from a show "\<exists>init. heap = Some init \<and>
        load_rows (sint (biWidth ih)) (sint (biHeight ih)) (row_padding (sint (biWidth ih) * 3)) 0
          \<lparr>rdata = bs, rpos = unat (bfOffBits fh)\<rparr>
          (map init [0..<nat (sint (biWidth ih)) * nat (sint (biHeight ih))])
        = Some (err, Return1 px)"
    unfolding ihv fhv
    by (auto simp add: cint_def malloc_def split: if_splits option.splits ret.splits)
qed

lemma load_bmp24_rows:
  assumes "load_bmp24 (Some bs) heap = Some (err, Return1 (fh, ih, px))"
    and "w = nat (sint (biWidth ih))" "h = nat (sint (biHeight ih))"
    and "off = unat (bfOffBits fh)"
  shows "err = []" "length px = w * h"
    "\<forall>r < h. off + r * (3 * w + nat (row_padding (int w * 3))) + 3 * w \<le> length bs
        \<and> buffer_row px w (h - 1 - r) = stored_row bs off w r"
proof -
  note acc = load_bmp24_accepted [OF assms(1)]
  let ?w = "sint (biWidth ih)" and ?h = "sint (biHeight ih)"
  from acc(10) obtain init where
    rows: "load_rows ?w ?h (row_padding (?w * 3)) 0 \<lparr>rdata = bs, rpos = unat (bfOffBits fh)\<rparr>
             (map init [0..<nat ?w * nat ?h]) = Some (err, Return1 px)"
    by blast
  have w: "int w = ?w" using acc(7) assms(2) by simp
  have p: "0 \<le> row_padding (?w * 3)"
    using acc(7) row_padding_range [of "?w * 3"] by simp
  from load_rows_rows [OF rows acc(7) _ p]
  have r: "err = [] \<and> length px = nat ?w * nat ?h
     \<and> (\<forall>k < nat (?h - 0).
            off + k * (3 * nat ?w + nat (row_padding (?w * 3))) + 3 * nat ?w \<le> length bs
            \<and> segment ((nat (?h - 0) - 1 - k) * nat ?w) (nat ?w) px
                = pixels_of (segment (off + k * (3 * nat ?w + nat (row_padding (?w * 3))))
                     (3 * nat ?w) bs))"
    by (simp add: assms(4))
  from r show "err = []" by simp
  from r show "length px = w * h" by (simp add: assms)
  from r show "\<forall>r < h. off + r * (3 * w + nat (row_padding (int w * 3))) + 3 * w \<le> length bs
        \<and> buffer_row px w (h - 1 - r) = stored_row bs off w r"
    unfolding buffer_row_def stored_row_def w by (simp add: assms(2,3))
qed

text \<open>
  Claim C2. In every accepted stream of height \<open>h\<close> the row stored at file position
  \<open>r\<close> becomes buffer row \<open>h - 1 - r\<close>; when the first stored row is all red and the
  last all blue, buffer row 0 is all blue and buffer row \<open>h - 1\<close> all red.
\<close>

theorem load_bmp24_orientation:
  assumes "load_bmp24 (Some bs) heap = Some (err, Return1 (fh, ih, px))"
    and "w = nat (sint (biWidth ih))" and "h = nat (sint (biHeight ih))"
    and "off = unat (bfOffBits fh)"
  shows "length px = w * h
     \<and> (\<forall>r < h. buffer_row px w (h - 1 - r) = stored_row bs off w r)
     \<and> (stored_row bs off w 0 = replicate w (Pixel24 0 0 255)
          \<and> stored_row bs off w (h - 1) = replicate w (Pixel24 255 0 0)
        \<longrightarrow> buffer_row px w 0 = replicate w (Pixel24 255 0 0)
          \<and> buffer_row px w (h - 1) = replicate w (Pixel24 0 0 255))"
proof -
  note rows = load_bmp24_rows [OF assms]
  have h: "0 < h"
    using load_bmp24_accepted(8) [OF assms(1)] assms(3) by simp
  from rows(3) have all: "\<forall>r < h. buffer_row px w (h - 1 - r) = stored_row bs off w r"
    by blast
  from all h have top: "buffer_row px w 0 = stored_row bs off w (h - 1)"
    by (metis diff_less diff_self_eq_0 zero_less_one)
  from all h have bottom: "buffer_row px w (h - 1) = stored_row bs off w 0"
    by (metis diff_zero)
  show ?thesis
    using rows(2) all top bottom by simp
qed

theorem load_bmp24_orientation_witness:
  "load_bmp24 (Some (ex_header 0x4D42 40 24 2 2 @ ex_pixels)) ex_heap
     = Some ([], Return1
         (\<lparr>bfType = 0x4D42, bfSize = 0, bfReserved1 = 0, bfReserved2 = 0, bfOffBits = 54\<rparr>,
          \<lparr>biSize = 40, biWidth = 2, biHeight = 2, biPlanes = 1, biBitCount = 24,
             biCompression = 0, biSizeImage = 0, biXPelsPerMeter = 0, biYPelsPerMeter = 0,
             biClrUsed = 0, biClrImportant = 0\<rparr>,
          [Pixel24 255 0 0, Pixel24 255 0 0, Pixel24 0 0 255, Pixel24 0 0 255]))
   \<and> stored_row (ex_header 0x4D42 40 24 2 2 @ ex_pixels) 54 2 0 = replicate 2 (Pixel24 0 0 255)
   \<and> stored_row (ex_header 0x4D42 40 24 2 2 @ ex_pixels) 54 2 1 = replicate 2 (Pixel24 255 0 0)
   \<and> buffer_row [Pixel24 255 0 0, Pixel24 255 0 0, Pixel24 0 0 255, Pixel24 0 0 255] 2 0
       = replicate 2 (Pixel24 255 0 0)
   \<and> buffer_row [Pixel24 255 0 0, Pixel24 255 0 0, Pixel24 0 0 255, Pixel24 0 0 255] 2 1
       = replicate 2 (Pixel24 0 0 255)"
proof -
  let ?S = "ex_header 0x4D42 40 24 2 2 @ ex_pixels"
  let ?fh = "\<lparr>bfType = 0x4D42, bfSize = 0, bfReserved1 = 0, bfReserved2 = 0, bfOffBits = 54\<rparr>"
  let ?ih = "\<lparr>biSize = 40, biWidth = 2, biHeight = 2, biPlanes = 1, biBitCount = 24,
             biCompression = 0, biSizeImage = 0, biXPelsPerMeter = 0, biYPelsPerMeter = 0,
             biClrUsed = 0, biClrImportant = 0\<rparr>"
  let ?P = "[Pixel24 255 0 0, Pixel24 255 0 0, Pixel24 0 0 255, Pixel24 0 0 255]"
  have ld: "load_bmp24 (Some ?S) ex_heap = Some ([], Return1 (?fh, ?ih, ?P))"
    by (simp add: eval_defs)
  have s0: "stored_row ?S 54 2 0 = replicate 2 (Pixel24 0 0 255)"
    and s1: "stored_row ?S 54 2 1 = replicate 2 (Pixel24 255 0 0)"
    by (simp_all add: stored_row_def eval_defs numeral_2_eq_2)
  have e: "(2::nat) = nat (sint (biWidth ?ih))" "(2::nat) = nat (sint (biHeight ?ih))"
    "(54::nat) = unat (bfOffBits ?fh)"
    by simp_all
  have one: "(2::nat) - 1 = 1" by simp
  from load_bmp24_orientation [OF ld e, unfolded one] s0 s1
  have "buffer_row ?P 2 0 = replicate 2 (Pixel24 255 0 0)
          \<and> buffer_row ?P 2 1 = replicate 2 (Pixel24 0 0 255)"
    by blast
  with ld s0 s1 show ?thesis by blast
qed

lemma save_rows_step:
  "0 \<le> y \<Longrightarrow> save_rows width padding pixels y f =
        (case cint (y * width) of
           None \<Rightarrow> None
         | Some off \<Rightarrow>
            if off < 0 \<or> nat off + size_t width > length pixels then None
            else
             (case fwrite (concat (map bytes_px (segment (nat off) (size_t width) pixels)))
                     3 (size_t width) f of
                (n, f') \<Rightarrow>
                  if n \<noteq> size_t width then Some (Return0, f')
                  else save_rows width padding pixels (y - 1)
                         (if padding \<noteq> 0
                          then snd (fwrite [0, 0, 0] 1 (size_t padding) f')
                          else f')))"
  by (subst save_rows.simps) simp

lemma save_rows_done:
  "y < 0 \<Longrightarrow> save_rows width padding pixels y f = Some (Return1 (), f)"
  by (subst save_rows.simps) simp

lemma size_t_nat: "0 \<le> v \<Longrightarrow> v \<le> INT_MAX \<Longrightarrow> size_t v = nat v"
  by (simp add: size_t_def INT_MAX_def)

lemma cint_Some: "INT_MIN \<le> v \<Longrightarrow> v \<le> INT_MAX \<Longrightarrow> cint v = Some v"
  by (simp add: cint_def)

lemma load_rows_succeeds:
  assumes "0 < w" "0 \<le> p" "(h - 1) * w \<le> INT_MAX"
    and "0 \<le> y"
    and "\<forall>k < nat (h - y). rpos f + k * (3 * nat w + nat p) + 3 * nat w \<le> length (rdata f)"
  shows "\<exists>px'. load_rows w h p y f px = Some ([], Return1 px')"
  using assms(4,5)
proof (induction "nat (h - y)" arbitrary: y f px)
  case 0
  then have "\<not> y < h" by simp
  then show ?case by (simp add: load_rows_done)
next
  case (Suc m)
  let ?W = "nat w"
  let ?S = "3 * nat w + nat p"
  from Suc.hyps(2) have y: "y < h" and m: "m = nat (h - (y + 1))" by simp_all
  have "0 \<le> h - 1 - y" using y by simp
  then have "0 \<le> (h - 1 - y) * w" using assms(1) by simp
  moreover have "(h - 1 - y) * w \<le> (h - 1) * w"
    using assms(1) Suc.prems(1) by (simp add: mult_right_mono)
  ultimately have off: "cint ((h - 1 - y) * w) = Some ((h - 1 - y) * w)"
    using assms(3) by (simp add: cint_Some INT_MIN_def)
  obtain got k f' where fr: "fread 3 ?W f = (got, k, f')"
    by (cases "fread 3 ?W f") auto
  from Suc.prems(2) Suc.hyps(2) have "rpos f + 0 * ?S + 3 * ?W \<le> length (rdata f)"
    by (metis zero_less_Suc)
  then have k: "k = ?W"
    using fread_short [OF fr] by simp
  have W: "0 < ?W" using assms(1) by simp
  note ff = fread_full [OF fr [unfolded k] W]
  let ?f2 = "if p \<noteq> 0 then fseek_cur (nat p) f' else f'"
  have f2: "rdata ?f2 = rdata f" "rpos ?f2 = rpos f + ?S"
    using ff(4,5) assms(2) by (auto simp add: fseek_cur_def)
  have rest: "\<forall>k < nat (h - (y + 1)). rpos ?f2 + k * ?S + 3 * ?W \<le> length (rdata ?f2)"
  proof (intro allI impI)
    fix j assume "j < nat (h - (y + 1))"
    then have "Suc j < nat (h - y)" by simp
    with Suc.prems(2) have "rpos f + Suc j * ?S + 3 * ?W \<le> length (rdata f)" by blast
    then show "rpos ?f2 + j * ?S + 3 * ?W \<le> length (rdata ?f2)"
      unfolding f2 by (simp add: algebra_simps)
  qed
  from Suc.hyps(1) [OF m _ rest] Suc.prems(1)
  obtain px' where "load_rows w h p (y + 1) ?f2
        (store px (nat ((h - 1 - y) * w)) (pixels_of got)) = Some ([], Return1 px')"
    by (metis add_nonneg_nonneg zero_le_one)
  then have "load_rows w h p y f px = Some ([], Return1 px')"
    using y off fr k by (simp add: load_rows_step)
  then show ?case by blast
qed

lemma byte_of_nat: "n < 256 \<Longrightarrow> unat (word_of_nat n :: byte) = n"
  by (simp add: unat_of_nat)

lemma rd16_bytes:
  "rd16 [word_of_nat (unat w mod 256), word_of_nat (unat w div 256)] = w"
proof -
  define n where "n = unat w"
  have n: "n < 65536" unfolding n_def using unsigned_less [of w, where ?'a = nat] by simp
  have a: "unat (word_of_nat (n mod 256) :: byte) = n mod 256"
    by (rule byte_of_nat) simp
  have b: "unat (word_of_nat (n div 256) :: byte) = n div 256"
    by (rule byte_of_nat) (use n in simp)
  have e: "n mod 256 + 256 * (n div 256) = n" by simp
  have "rd16 [word_of_nat (n mod 256), word_of_nat (n div 256)]
      = word_of_nat (n mod 256 + 256 * (n div 256))"
    unfolding rd16_def by (simp only: a b nth_Cons_0 nth_Cons_Suc One_nat_def)
  then show ?thesis unfolding e by (simp add: n_def)
qed

lemma rd32_bytes:
  "rd32 [word_of_nat (unat w mod 256), word_of_nat (unat w div 256 mod 256),
         word_of_nat (unat w div 65536 mod 256), word_of_nat (unat w div 16777216)] = w"
proof -
  define n where "n = unat w"
  have n: "n < 4294967296" unfolding n_def using unsigned_less [of w, where ?'a = nat] by simp
  have a: "unat (word_of_nat (n mod 256) :: byte) = n mod 256"
    by (rule byte_of_nat) simp
  have b: "unat (word_of_nat (n div 256 mod 256) :: byte) = n div 256 mod 256"
    by (rule byte_of_nat) simp
  have c: "unat (word_of_nat (n div 65536 mod 256) :: byte) = n div 65536 mod 256"
    by (rule byte_of_nat) simp
  have "n div 16777216 < 256"
    using n by (simp add: less_mult_imp_div_less)
  then have d: "unat (word_of_nat (n div 16777216) :: byte) = n div 16777216"
    by (rule byte_of_nat)
  have q2: "n div 65536 = n div 256 div 256" and q3: "n div 16777216 = n div 65536 div 256"
    by (simp_all add: div_mult2_eq [symmetric])
  have s1: "n = n mod 256 + 256 * (n div 256)"
    and s2: "n div 256 = n div 256 mod 256 + 256 * (n div 65536)"
    and s3: "n div 65536 = n div 65536 mod 256 + 256 * (n div 16777216)"
    unfolding q2 q3 by simp_all
  have e: "n mod 256 + 256 * (n div 256 mod 256) + 65536 * (n div 65536 mod 256)
          + 16777216 * (n div 16777216) = n"
    using s1 s2 s3 by linarith
  have "rd32 [word_of_nat (n mod 256), word_of_nat (n div 256 mod 256),
         word_of_nat (n div 65536 mod 256), word_of_nat (n div 16777216)]
      = word_of_nat (n mod 256 + 256 * (n div 256 mod 256) + 65536 * (n div 65536 mod 256)
          + 16777216 * (n div 16777216))"
    unfolding rd32_def
    by (simp only: a b c d nth_Cons_0 nth_Cons_Suc One_nat_def numeral_2_eq_2 numeral_3_eq_3)
  then show ?thesis unfolding e by (simp add: n_def)
qed

lemma parse_bytes_fh: "parse_fh (segment 0 14 (bytes_fh fh @ rest)) = fh"
  by (simp add: parse_fh_def bytes_fh_def wr16_def wr32_def segment_def rd16_bytes rd32_bytes)

lemma parse_bytes_ih: "parse_ih (segment 14 40 (bytes_fh fh @ bytes_ih ih @ rest)) = ih"
  by (simp add: parse_ih_def bytes_fh_def bytes_ih_def wr16_def wr32_def segment_def
        rd16_bytes rd32_bytes)

lemma length_bytes_fh: "length (bytes_fh fh) = 14"
  by (simp add: bytes_fh_def wr16_def wr32_def)

lemma length_bytes_ih: "length (bytes_ih ih) = 40"
  by (simp add: bytes_ih_def wr16_def wr32_def)

lemma rows_eqI:
  assumes "length xs = W * H" "length ys = W * H"
    and "\<And>j. j < H \<Longrightarrow> segment (j * W) W xs = segment (j * W) W ys"
  shows "xs = ys"
proof (rule nth_equalityI)
  show "length xs = length ys" using assms(1,2) by simp
  fix i assume "i < length xs"
  then have i: "i < W * H" using assms(1) by simp
  then have W: "0 < W" by (cases W) simp_all
  let ?j = "i div W" and ?r = "i mod W"
  have j: "?j < H" using i by (simp add: less_mult_imp_div_less mult.commute)
  have r: "?r < W" using W by simp
  have "Suc ?j \<le> H" using j by simp
  then have "Suc ?j * W \<le> H * W" by (rule mult_le_mono1)
  then have b: "?j * W + W \<le> W * H" by (simp add: mult.commute)
  have e: "?j * W + ?r = i" by simp
  have "xs ! (?j * W + ?r) = segment (?j * W) W xs ! ?r"
    using b r assms(1) by (simp add: nth_segment)
  also have "\<dots> = segment (?j * W) W ys ! ?r"
    using assms(3) [OF j] by simp
  also have "\<dots> = ys ! (?j * W + ?r)"
    using b r assms(2) by (simp add: nth_segment)
  finally show "xs ! i = ys ! i" unfolding e .
qed

text \<open>A write that the device has room for: the count is full and nothing is lost.\<close>

lemma fwrite_fits:
  assumes "sz * count \<le> length buf" and "length (wpend f) + sz * count + X \<le> wroom f"
  shows "\<exists>f'. fwrite buf sz count f = (count, f')
            \<and> wdata f' @ wpend f' = (wdata f @ wpend f) @ take (sz * count) buf
            \<and> length (wpend f') + X \<le> wroom f'"
  using assms by (auto simp add: fwrite_def Let_def min_def)

lemma fclose_fits: "length (wpend f) \<le> wroom f \<Longrightarrow> fclose f = wdata f @ wpend f"
  by (simp add: fclose_def)

lemma save_rows_fits:
  assumes "0 < w" "w \<le> INT_MAX" "0 \<le> p" "p \<le> 3"
    and "- 1 \<le> y" "y * w \<le> INT_MAX"
    and "nat (y + 1) * nat w \<le> length px"
    and "length (wpend f) + nat (y + 1) * (3 * nat w + nat p) + X \<le> wroom f"
  shows "\<exists>f' t. save_rows w p px y f = Some (Return1 (), f')
     \<and> length (wpend f') + X \<le> wroom f'
     \<and> wdata f' @ wpend f' = (wdata f @ wpend f) @ t
     \<and> length t = nat (y + 1) * (3 * nat w + nat p)
     \<and> (\<forall>k < nat (y + 1).
           segment (k * (3 * nat w + nat p)) (3 * nat w) t
             = concat (map bytes_px (segment ((nat (y + 1) - 1 - k) * nat w) (nat w) px)))"
  using assms(5-8)
proof (induction "nat (y + 1)" arbitrary: y f)
  case 0
  then have "y < 0" by simp
  with 0 show ?case by (simp add: save_rows_done)
next
  case (Suc m)
  let ?W = "nat w"
  let ?S = "3 * nat w + nat p"
  from Suc.hyps(2) have y: "0 \<le> y" and m: "nat y = m" and sm: "nat (y + 1) = Suc m"
    by simp_all
  have st: "size_t w = ?W" using assms(1,2) by (simp add: size_t_nat)
  have sp: "size_t p = nat p" using assms(3,4) by (simp add: size_t_nat INT_MAX_def)
  have nn: "0 \<le> y * w" using y assms(1) by simp
  then have off: "cint (y * w) = Some (y * w)"
    using Suc.prems(2) by (simp add: cint_Some INT_MIN_def)
  have noff: "nat (y * w) = m * ?W"
    using y m by (simp add: nat_mult_distrib)
  have b: "m * ?W + ?W \<le> length px"
    using Suc.prems(3) unfolding sm by simp
  define rb where "rb = concat (map bytes_px (segment (m * ?W) ?W px))"
  have l: "length rb = 3 * ?W"
    using b by (simp add: rb_def length_bytes_px length_segment)
  define Y where "Y = m * ?S + X"
  have room: "length (wpend f) + 3 * ?W + (nat p + Y) \<le> wroom f"
    using Suc.prems(4) unfolding sm by (simp add: Y_def)
  from fwrite_fits [of 3 ?W rb f "nat p + Y"] l room
  obtain f1 where w1: "fwrite rb 3 ?W f = (?W, f1)"
    and d1: "wdata f1 @ wpend f1 = (wdata f @ wpend f) @ rb"
    and r1: "length (wpend f1) + (nat p + Y) \<le> wroom f1"
    by auto
  define pad where "pad = take (nat p) [0, 0, 0 :: byte]"
  have lp: "length pad = nat p" using assms(3,4) by (simp add: pad_def)
  define f2 where "f2 = (if p \<noteq> 0 then snd (fwrite [0, 0, 0] 1 (size_t p) f1) else f1)"
  have "wdata f2 @ wpend f2 = (wdata f1 @ wpend f1) @ pad \<and> length (wpend f2) + Y \<le> wroom f2"
  proof (cases "p = 0")
    case True
    with r1 show ?thesis by (simp add: f2_def pad_def)
  next
    case False
    have "1 * nat p \<le> length [0, 0, 0 :: byte]" using assms(4) by simp
    moreover have "length (wpend f1) + 1 * nat p + Y \<le> wroom f1" using r1 by simp
    ultimately obtain f' where "fwrite [0, 0, 0] 1 (nat p) f1 = (nat p, f')"
      and "wdata f' @ wpend f' = (wdata f1 @ wpend f1) @ take (1 * nat p) [0, 0, 0]"
      and "length (wpend f') + Y \<le> wroom f'"
      using fwrite_fits [of 1 "nat p" "[0, 0, 0]" f1 Y] by blast
    with False show ?thesis by (simp add: f2_def sp pad_def)
  qed
  then have d2: "wdata f2 @ wpend f2 = (wdata f1 @ wpend f1) @ pad"
    and r2: "length (wpend f2) + nat (y - 1 + 1) * ?S + X \<le> wroom f2"
    using m by (simp_all add: Y_def)
  have "(y - 1) * w \<le> y * w" using assms(1) by (simp add: mult_right_mono)
  then have c2: "(y - 1) * w \<le> INT_MAX" using Suc.prems(2) by simp
  have b2: "nat (y - 1 + 1) * ?W \<le> length px" using b m by simp
  have m': "m = nat (y - 1 + 1)" using m by simp
  have y1: "- 1 \<le> y - 1" using y by simp
  from Suc.hyps(1) [OF m' y1 c2 b2 r2]
  obtain f' t' where rest: "save_rows w p px (y - 1) f2 = Some (Return1 (), f')"
    and r': "length (wpend f') + X \<le> wroom f'"
    and d': "wdata f' @ wpend f' = (wdata f2 @ wpend f2) @ t'"
    and lt': "length t' = m * ?S"
    and lay': "\<forall>k < m. segment (k * ?S) (3 * ?W) t'
                 = concat (map bytes_px (segment ((m - 1 - k) * ?W) ?W px))"
    unfolding m' [symmetric] by blast
  have run: "save_rows w p px y f = Some (Return1 (), f')"
    using y off b nn w1 rest unfolding rb_def f2_def
    by (simp add: save_rows_step st noff split: if_splits)
  define t where "t = rb @ pad @ t'"
  have d: "wdata f' @ wpend f' = (wdata f @ wpend f) @ t"
    unfolding d' d2 d1 t_def by simp
  have lt: "length t = Suc m * ?S"
    by (simp add: t_def l lp lt')
  have lay: "segment (k * ?S) (3 * ?W) t
               = concat (map bytes_px (segment ((Suc m - 1 - k) * ?W) ?W px))"
    if "k < Suc m" for k
  proof (cases k)
    case 0
    have "segment 0 (3 * ?W) t = rb" using l by (simp add: t_def segment_def)
    with 0 show ?thesis by (simp add: rb_def)
  next
    case (Suc j)
    with that have j: "j < m" by simp
    have "segment (Suc j * ?S) (3 * ?W) t = segment (j * ?S) (3 * ?W) t'"
      by (simp add: t_def segment_def l lp)
    with lay' j show ?thesis unfolding Suc by simp
  qed
  from run r' d lt lay show ?case unfolding sm by blast
qed

text \<open>
  The file \<open>save_bmp24\<close> leaves on a device with room for it: the two headers, then the
  rows of the buffer from the last to the first, each 3 * width bytes, a stride apart.
\<close>

lemma save_bmp24_fits:
  assumes "0 < sint (biWidth ih)" "0 < sint (biHeight ih)"
    and "sint (biWidth ih) * 3 + row_padding (sint (biWidth ih) * 3) \<le> INT_MAX"
    and "(sint (biHeight ih) - 1) * sint (biWidth ih) \<le> INT_MAX"
    and "nat (sint (biWidth ih)) * nat (sint (biHeight ih)) \<le> length px"
    and "54 + nat (sint (biHeight ih))
            * (3 * nat (sint (biWidth ih)) + nat (row_padding (sint (biWidth ih) * 3))) \<le> room"
  defines "w \<equiv> sint (biWidth ih)" and "h \<equiv> sint (biHeight ih)"
  defines "p \<equiv> row_padding (w * 3)"
  defines "ih' \<equiv> ih\<lparr> biSize := 40, biCompression := 0, biBitCount := 24, biPlanes := 1,
       biSizeImage := (word_of_int (w * 3 + p) :: 32 word) * biHeight ih \<rparr>"
  defines "fh' \<equiv> \<lparr> bfType = 0x4D42,
       bfSize = 54 + (word_of_int (w * 3 + p) :: 32 word) * biHeight ih,
       bfReserved1 = 0, bfReserved2 = 0, bfOffBits = 54 \<rparr>"
  shows "\<exists>t. save_bmp24 (Some room) bufsiz ih px
              = Some ([], Return1 (), Some ((bytes_fh fh' @ bytes_ih ih') @ t))
     \<and> length t = nat h * (3 * nat w + nat p)
     \<and> (\<forall>k < nat h.
           segment (k * (3 * nat w + nat p)) (3 * nat w) t
             = concat (map bytes_px (segment ((nat h - 1 - k) * nat w) (nat w) px)))"
proof -
  note a = assms(1-6) [folded w_def h_def, folded p_def]
  let ?S = "3 * nat w + nat p"
  have p: "0 \<le> p" "p \<le> 3"
    using row_padding_range [of "w * 3"] a(1) by (simp_all add: p_def)
  have c1: "cint (w * 3) = Some (w * 3)"
    using a(1,3) p by (simp add: cint_Some INT_MIN_def)
  have c2: "cint (w * 3 + p) = Some (w * 3 + p)"
    using a(1,3) p by (simp add: cint_Some INT_MIN_def)
  have wmax: "w \<le> INT_MAX" using a(1,3) p by simp
  define Y where "Y = nat h * ?S"
  let ?f0 = "\<lparr>wdata = [], wpend = [], wcap = bufsiz, wroom = room\<rparr>"
  have "14 * 1 \<le> length (bytes_fh fh')" by (simp add: length_bytes_fh)
  moreover have "length (wpend ?f0) + 14 * 1 + (40 + Y) \<le> wroom ?f0"
    using a(6) by (simp add: Y_def)
  ultimately obtain f1 where w1: "fwrite (bytes_fh fh') 14 1 ?f0 = (1, f1)"
    and d1: "wdata f1 @ wpend f1 = bytes_fh fh'"
    and r1: "length (wpend f1) + (40 + Y) \<le> wroom f1"
    using fwrite_fits [of 14 1 "bytes_fh fh'" ?f0 "40 + Y"] by (auto simp add: length_bytes_fh)
  have "40 * 1 \<le> length (bytes_ih ih')" by (simp add: length_bytes_ih)
  moreover have "length (wpend f1) + 40 * 1 + Y \<le> wroom f1" using r1 by simp
  ultimately obtain f2 where w2: "fwrite (bytes_ih ih') 40 1 f1 = (1, f2)"
    and d2: "wdata f2 @ wpend f2 = bytes_fh fh' @ bytes_ih ih'"
    and r2: "length (wpend f2) + Y \<le> wroom f2"
    using fwrite_fits [of 40 1 "bytes_ih ih'" f1 Y] d1 by (auto simp add: length_bytes_ih)
  have y: "- 1 \<le> h - 1" and hh: "nat (h - 1 + 1) = nat h" using a(2) by simp_all
  have len: "nat (h - 1 + 1) * nat w \<le> length px" using a(5) by (simp add: mult.commute)
  have r2': "length (wpend f2) + nat (h - 1 + 1) * ?S + 0 \<le> wroom f2"
    using r2 by (simp add: Y_def)
  from save_rows_fits [OF a(1) wmax p y a(4) len r2']
  obtain f3 t where rows: "save_rows w p px (h - 1) f2 = Some (Return1 (), f3)"
    and r3: "length (wpend f3) \<le> wroom f3"
    and d3: "wdata f3 @ wpend f3 = (bytes_fh fh' @ bytes_ih ih') @ t"
    and lt: "length t = nat h * ?S"
    and lay: "\<forall>k < nat h. segment (k * ?S) (3 * nat w) t
                = concat (map bytes_px (segment ((nat h - 1 - k) * nat w) (nat w) px))"
    unfolding hh d2 by auto
  have "fclose f3 = (bytes_fh fh' @ bytes_ih ih') @ t"
    using fclose_fits [OF r3] d3 by simp
  then have "save_bmp24 (Some room) bufsiz ih px
      = Some ([], Return1 (), Some ((bytes_fh fh' @ bytes_ih ih') @ t))"
    unfolding save_bmp24_def option.case Let_def w_def [symmetric] h_def [symmetric] c1
      p_def [symmetric] c2 ih'_def [symmetric] fh'_def [symmetric] w1 prod.case w2
    by (simp add: rows)
  with lt lay show ?thesis by blast
qed

text \<open>Such a file is accepted by \<open>load_bmp24\<close>, which finds the buffer it was written from.\<close>

lemma load_written:
  assumes w: "0 < w" and h: "0 < h" and w3: "w * 3 \<le> INT_MAX" and hw: "(h - 1) * w \<le> INT_MAX"
    and len: "length px = nat w * nat h"
    and sig: "bfType fh' = 0x4D42" "unat (bfOffBits fh') = 54"
    and fmt: "biBitCount ih' = 24" "biCompression ih' = 0"
    and dims: "sint (biWidth ih') = w" "sint (biHeight ih') = h"
    and lt: "length t = nat h * (3 * nat w + nat (row_padding (w * 3)))"
    and lay: "\<forall>k < nat h.
           segment (k * (3 * nat w + nat (row_padding (w * 3)))) (3 * nat w) t
             = concat (map bytes_px (segment ((nat h - 1 - k) * nat w) (nat w) px))"
  shows "load_bmp24 (Some ((bytes_fh fh' @ bytes_ih ih') @ t)) (Some init)
           = Some ([], Return1 (fh', ih', px))"
proof -
  define p where "p = row_padding (w * 3)"
  define out where "out = (bytes_fh fh' @ bytes_ih ih') @ t"
  let ?W = "nat w" and ?H = "nat h"
  let ?S = "3 * nat w + nat p"
  note lt' = lt [folded p_def] and lay' = lay [folded p_def]
  have p: "0 \<le> p" "p \<le> 3"
    using row_padding_range [of "w * 3"] w by (simp_all add: p_def)
  have lo: "length out = 54 + ?H * ?S"
    by (simp add: out_def length_bytes_fh length_bytes_ih lt')
  have l54: "54 \<le> length out" using lo by simp
  have pfh: "parse_fh (segment 0 14 out) = fh'"
    unfolding out_def by (simp add: parse_bytes_fh)
  have pih: "parse_ih (segment 14 40 out) = ih'"
    unfolding out_def by (simp add: parse_bytes_ih)
  have bound: "54 + k * ?S + 3 * ?W \<le> length out" if "k < ?H" for k
  proof -
    from that have "Suc k \<le> ?H" by simp
    then have "Suc k * ?S \<le> ?H * ?S" by (rule mult_le_mono1)
    then show ?thesis unfolding lo by simp
  qed
  have seg: "segment (54 + k * ?S) (3 * ?W) out = segment (k * ?S) (3 * ?W) t" for k
    by (simp add: out_def segment_def length_bytes_fh length_bytes_ih)
  let ?blk = "map init [0..<?W * ?H]"
  let ?f = "\<lparr>rdata = out, rpos = 54\<rparr>"
  have "\<forall>k < nat (h - 0). rpos ?f + k * ?S + 3 * ?W \<le> length (rdata ?f)"
    using bound by simp
  from load_rows_succeeds [OF w p(1) hw _ this]
  obtain px' where ld: "load_rows w h p 0 ?f ?blk = Some ([], Return1 px')"
    by auto
  from load_rows_rows [OF ld w _ p(1)]
  have lpx: "length px' = ?W * ?H"
    and got: "\<forall>k < ?H. segment ((?H - 1 - k) * ?W) ?W px'
                = pixels_of (segment (54 + k * ?S) (3 * ?W) out)"
    by simp_all
  have "px' = px"
  proof (rule rows_eqI [of _ ?W ?H])
    show "length px' = ?W * ?H" by fact
    show "length px = ?W * ?H" using len by simp
    fix j assume j: "j < ?H"
    then have k: "?H - 1 - j < ?H" and e: "?H - 1 - (?H - 1 - j) = j" by simp_all
    from got k have "segment ((?H - 1 - (?H - 1 - j)) * ?W) ?W px'
        = pixels_of (segment (54 + (?H - 1 - j) * ?S) (3 * ?W) out)"
      by blast
    then have a: "segment (j * ?W) ?W px'
        = pixels_of (segment ((?H - 1 - j) * ?S) (3 * ?W) t)"
      unfolding e seg .
    from lay' k have "segment ((?H - 1 - j) * ?S) (3 * ?W) t
        = concat (map bytes_px (segment ((?H - 1 - (?H - 1 - j)) * ?W) ?W px))"
      by blast
    then have b: "segment ((?H - 1 - j) * ?S) (3 * ?W) t
        = concat (map bytes_px (segment (j * ?W) ?W px))"
      unfolding e .
    show "segment (j * ?W) ?W px' = segment (j * ?W) ?W px"
      unfolding a b by (simp add: pixels_of_bytes)
  qed
  with ld have ld': "load_rows w h p 0 ?f ?blk = Some ([], Return1 px)" by simp
  have c: "cint (w * 3) = Some (w * 3)"
    using w3 w by (simp add: cint_Some INT_MIN_def)
  have "load_bmp24 (Some out) (Some init) = Some ([], Return1 (fh', ih', px))"
    using w h
    by (simp add: hdr_reads [OF l54] pfh pih sig fmt dims c malloc_def p_def [symmetric] ld')
  then show ?thesis unfolding out_def .
qed

lemmas save_eval_defs = save_bmp24_def fwrite_def fclose_def save_rows_step save_rows_done
  size_t_def bytes_px_def

text \<open>
  On a device that takes 60 bytes, with a buffer of 4096, every \<open>fwrite\<close> of the 70-byte
  sample file is buffered and reports success, so \<open>save_bmp24\<close> returns 1; the file left
  behind has lost its last row, and \<open>load_bmp24\<close> returns 0 on it.
\<close>

lemma save_bmp24_full_device:
  "save_bmp24 (Some 60) 4096
         \<lparr>biSize = 40, biWidth = 2, biHeight = 2, biPlanes = 1, biBitCount = 24,
            biCompression = 0, biSizeImage = 0, biXPelsPerMeter = 0, biYPelsPerMeter = 0,
            biClrUsed = 0, biClrImportant = 0\<rparr>
         [Pixel24 255 0 0, Pixel24 255 0 0, Pixel24 0 0 255, Pixel24 0 0 255]
     = Some ([], Return1 (), Some (take 60 ex_saved))
   \<and> load_bmp24 (Some (take 60 ex_saved)) ex_heap
       = Some ([''Lectura de fila incompleta.''], Return0)"
  by (simp add: save_eval_defs eval_defs ex_saved_def)

text \<open>
  Claim C1. When \<open>load_bmp24\<close> accepts a stream, \<open>save_bmp24\<close> writes from the decoded
  header and buffer a file that \<open>load_bmp24\<close> decodes to the same buffer, pixel for pixel
  (the bytes of the file need not be those of the first stream: its padding is zero).
  This is so on a device with room for the whole file, whatever the size of the
  buffer of the stream, and for a width such that \<open>row_bytes + padding\<close> fits an \<open>int\<close>.
\<close>

theorem decode_encode_decode:
  assumes "load_bmp24 (Some bytes) heap = Some (err, Return1 (fh, ih, px))"
    and "sint (biWidth ih) * 3 + row_padding (sint (biWidth ih) * 3) \<le> INT_MAX"
    and "54 + nat (sint (biHeight ih))
              * (3 * nat (sint (biWidth ih)) + nat (row_padding (sint (biWidth ih) * 3)))
           \<le> room"
  shows "\<exists>out fh' ih'.
           save_bmp24 (Some room) bufsiz ih px = Some ([], Return1 (), Some out)
         \<and> length out = 54 + nat (sint (biHeight ih))
              * (3 * nat (sint (biWidth ih)) + nat (row_padding (sint (biWidth ih) * 3)))
         \<and> load_bmp24 (Some out) (Some init) = Some ([], Return1 (fh', ih', px))"
proof -
  note acc = load_bmp24_accepted [OF assms(1)]
  note rows = load_bmp24_rows [OF assms(1) refl refl refl]
  define w where "w = sint (biWidth ih)"
  define h where "h = sint (biHeight ih)"
  define p where "p = row_padding (w * 3)"
  define ih' where "ih' = ih\<lparr> biSize := 40, biCompression := 0, biBitCount := 24, biPlanes := 1,
       biSizeImage := (word_of_int (w * 3 + p) :: 32 word) * biHeight ih \<rparr>"
  define fh' where "fh' = \<lparr> bfType = 0x4D42,
       bfSize = 54 + (word_of_int (w * 3 + p) :: 32 word) * biHeight ih,
       bfReserved1 = 0, bfReserved2 = 0, bfOffBits = (54 :: 32 word) \<rparr>"
  from acc(10) obtain init0 where
    lr: "load_rows (sint (biWidth ih)) (sint (biHeight ih)) (row_padding (sint (biWidth ih) * 3)) 0
          \<lparr>rdata = bytes, rpos = unat (bfOffBits fh)\<rparr>
          (map init0 [0..<nat (sint (biWidth ih)) * nat (sint (biHeight ih))])
        = Some (err, Return1 px)"
    by blast
  have hw: "(sint (biHeight ih) - 1) * sint (biWidth ih) \<le> INT_MAX"
    using load_rows_first [OF lr acc(8) acc(7)] by simp
  have len: "nat (sint (biWidth ih)) * nat (sint (biHeight ih)) \<le> length px"
    using rows(2) by simp
  from save_bmp24_fits [OF acc(7,8) assms(2) hw len assms(3), of bufsiz,
      folded w_def h_def, folded p_def, folded ih'_def fh'_def]
  obtain t where sv: "save_bmp24 (Some room) bufsiz ih px
              = Some ([], Return1 (), Some ((bytes_fh fh' @ bytes_ih ih') @ t))"
    and lt: "length t = nat h * (3 * nat w + nat p)"
    and lay: "\<forall>k < nat h. segment (k * (3 * nat w + nat p)) (3 * nat w) t
             = concat (map bytes_px (segment ((nat h - 1 - k) * nat w) (nat w) px))"
    by blast
  have ld: "load_bmp24 (Some ((bytes_fh fh' @ bytes_ih ih') @ t)) (Some init)
           = Some ([], Return1 (fh', ih', px))"
  proof (rule load_written [where w = w and h = h])
    show "0 < w" "0 < h" using acc(7,8) by (simp_all add: w_def h_def)
    show "w * 3 \<le> INT_MAX" using acc(9) by (simp add: w_def)
    show "(h - 1) * w \<le> INT_MAX" using hw by (simp add: w_def h_def)
    show "length px = nat w * nat h" using rows(2) by (simp add: w_def h_def)
    show "bfType fh' = 0x4D42" "unat (bfOffBits fh') = 54" by (simp_all add: fh'_def)
    show "biBitCount ih' = 24" "biCompression ih' = 0" by (simp_all add: ih'_def)
    show "sint (biWidth ih') = w" "sint (biHeight ih') = h" by (simp_all add: ih'_def w_def h_def)
    show "length t = nat h * (3 * nat w + nat (row_padding (w * 3)))"
      using lt by (simp add: p_def)
    show "\<forall>k < nat h.
           segment (k * (3 * nat w + nat (row_padding (w * 3)))) (3 * nat w) t
             = concat (map bytes_px (segment ((nat h - 1 - k) * nat w) (nat w) px))"
      using lay by (simp add: p_def)
  qed
  have "length ((bytes_fh fh' @ bytes_ih ih') @ t) = 54 + nat h * (3 * nat w + nat p)"
    by (simp add: length_bytes_fh length_bytes_ih lt)
  with sv ld show ?thesis unfolding w_def h_def p_def by blast
qed

theorem decode_encode_decode_witness:
  "load_bmp24 (Some (ex_header 0x4D42 40 24 2 2 @ ex_pixels)) ex_heap
     = Some ([], Return1
         (\<lparr>bfType = 0x4D42, bfSize = 0, bfReserved1 = 0, bfReserved2 = 0, bfOffBits = 54\<rparr>,
          \<lparr>biSize = 40, biWidth = 2, biHeight = 2, biPlanes = 1, biBitCount = 24,
             biCompression = 0, biSizeImage = 0, biXPelsPerMeter = 0, biYPelsPerMeter = 0,
             biClrUsed = 0, biClrImportant = 0\<rparr>,
          [Pixel24 255 0 0, Pixel24 255 0 0, Pixel24 0 0 255, Pixel24 0 0 255]))
   \<and> save_bmp24 (Some 100) 32
         \<lparr>biSize = 40, biWidth = 2, biHeight = 2, biPlanes = 1, biBitCount = 24,
            biCompression = 0, biSizeImage = 0, biXPelsPerMeter = 0, biYPelsPerMeter = 0,
            biClrUsed = 0, biClrImportant = 0\<rparr>
         [Pixel24 255 0 0, Pixel24 255 0 0, Pixel24 0 0 255, Pixel24 0 0 255]
     = Some ([], Return1 (), Some ex_saved)
   \<and> ex_saved \<noteq> ex_header 0x4D42 40 24 2 2 @ ex_pixels
   \<and> length ex_saved = 70
   \<and> (\<exists>fh' ih'. load_bmp24 (Some ex_saved) ex_heap
         = Some ([], Return1 (fh', ih',
             [Pixel24 255 0 0, Pixel24 255 0 0, Pixel24 0 0 255, Pixel24 0 0 255])))"
proof -
  let ?S = "ex_header 0x4D42 40 24 2 2 @ ex_pixels"
  let ?fh = "\<lparr>bfType = 0x4D42, bfSize = 0, bfReserved1 = 0, bfReserved2 = 0, bfOffBits = 54\<rparr>"
  let ?ih = "\<lparr>biSize = 40, biWidth = 2, biHeight = 2, biPlanes = 1, biBitCount = 24,
             biCompression = 0, biSizeImage = 0, biXPelsPerMeter = 0, biYPelsPerMeter = 0,
             biClrUsed = 0, biClrImportant = 0\<rparr>"
  let ?P = "[Pixel24 255 0 0, Pixel24 255 0 0, Pixel24 0 0 255, Pixel24 0 0 255]"
  have ld: "load_bmp24 (Some ?S) ex_heap = Some ([], Return1 (?fh, ?ih, ?P))"
    by (simp add: eval_defs)
  have sv: "save_bmp24 (Some 100) 32 ?ih ?P = Some ([], Return1 (), Some ex_saved)"
    by (simp add: save_eval_defs eval_defs ex_saved_def)
  have ne: "ex_saved \<noteq> ?S"
    by (simp add: ex_saved_def ex_pixels_def ex_header_bytes wr16_def wr32_def)
  have le: "length ex_saved = 70" by (simp add: ex_saved_def)
  have fit: "sint (biWidth ?ih) * 3 + row_padding (sint (biWidth ?ih) * 3) \<le> INT_MAX"
    "54 + nat (sint (biHeight ?ih))
        * (3 * nat (sint (biWidth ?ih)) + nat (row_padding (sint (biWidth ?ih) * 3))) \<le> 100"
    by (simp_all add: row_padding_def INT_MAX_def)
  from decode_encode_decode [OF ld fit, of 32 "\<lambda>i. Pixel24 1 2 3"] sv
  have "\<exists>fh' ih'. load_bmp24 (Some ex_saved) ex_heap
         = Some ([], Return1 (fh', ih', ?P))"
    by (auto simp add: ex_heap_def)
  with ld sv ne le show ?thesis by blast
qed

lemma blen_0: "blen 0 = 0"
  by (simp add: blen.simps)

lemma blen_numeral: "blen (numeral k) = Suc (blen (numeral k div 2))"
  by (subst blen.simps) simp

lemma blen_Suc_0: "blen (Suc 0) = Suc 0"
  by (simp add: blen.simps)

lemmas fp_eval = blen_0 blen_numeral blen_Suc_0 fp_round_def ilog2_def pow2_def round_even_def
  Let_def dround_def dadd_def dmul_def fround_def fadd_def fmul_def fdiv_def fp_of_int_def

lemma floor_rat_numeral: "\<lfloor>(numeral a :: rat) / numeral b\<rfloor> = numeral a div numeral b"
  using floor_divide_of_int_eq [of "numeral a" "numeral b", where ?'a = rat] by simp

lemma ceiling_rat_numeral:
  "\<lceil>(numeral a :: rat) / numeral b\<rceil> = - (- numeral a div numeral b)"
  using floor_divide_of_int_eq [of "- numeral a" "numeral b", where ?'a = rat]
  by (simp add: ceiling_def)

lemma floor_rat_one: "\<lfloor>(1 :: rat) / numeral b\<rfloor> = 1 div numeral b"
  using floor_divide_of_int_eq [of 1 "numeral b", where ?'a = rat] by simp

lemmas fp_eval2 = fp_eval floor_rat_numeral ceiling_rat_numeral floor_rat_one

lemma for_loop_step:
  "i < n \<Longrightarrow> for_loop i n body s
     = (case body i s of None \<Rightarrow> None | Some s' \<Rightarrow> for_loop (i + 1) n body s')"
  by (subst for_loop.simps) simp

lemma for_loop_done: "\<not> i < n \<Longrightarrow> for_loop i n body s = Some s"
  by (subst for_loop.simps) simp

lemma for_loop_inv:
  assumes "for_loop a n body s = Some s'" and "I a s"
    and "\<And>i t t'. a \<le> i \<Longrightarrow> i < n \<Longrightarrow> I i t \<Longrightarrow> body i t = Some t' \<Longrightarrow> I (i + 1) t'"
  shows "I (max a n) s'"
  using assms
proof (induction "nat (n - a)" arbitrary: a s)
  case 0
  then have "\<not> a < n" by simp
  with "0.prems" show ?case by (simp add: for_loop_done max_def)
next
  case (Suc m)
  then have a: "a < n" by simp
  from Suc.prems(1) a obtain t where t: "body a s = Some t"
    and rest: "for_loop (a + 1) n body t = Some s'"
    by (auto simp add: for_loop_step split: option.splits)
  have "I (a + 1) t" using Suc.prems(3) [OF _ a Suc.prems(2) t] by simp
  from Suc.hyps(1) [OF _ rest this] Suc.hyps(2) Suc.prems(3)
  have "I (max (a + 1) n) s'" by simp
  with a show ?case by (simp add: max_def)
qed

lemma rd_Some: "rd a i = Some v \<longleftrightarrow> 0 \<le> i \<and> nat i < length a \<and> v = a ! nat i"
  by (auto simp add: rd_def)

lemma wr_Some: "wr a i v = Some a' \<longleftrightarrow> 0 \<le> i \<and> nat i < length a \<and> a' = a[nat i := v]"
  by (auto simp add: wr_def)

lemma cint_eq_Some: "cint v = Some u \<longleftrightarrow> u = v \<and> INT_MIN \<le> v \<and> v \<le> INT_MAX"
  by (auto simp add: cint_def)

lemma cell_Some:
  "cell w r c = Some i \<Longrightarrow> i = r * w + c"
  by (auto simp add: cell_def cint_eq_Some Option.bind_eq_Some_conv)

lemma copy_cell_Some:
  assumes "copy_cell src w r c dst = Some dst'"
  shows "0 \<le> r * w + c" "nat (r * w + c) < length src" "nat (r * w + c) < length dst"
    "dst' = dst[nat (r * w + c) := src ! nat (r * w + c)]"
  using assms
  by (auto simp add: copy_cell_def Option.bind_eq_Some_conv rd_Some wr_Some dest!: cell_Some)

lemma bind_Some: "Option.bind m f = Some v \<longleftrightarrow> (\<exists>u. m = Some u \<and> f u = Some v)"
  by (cases m) simp_all

lemma extract_plane_Some:
  assumes "extract_plane pixels n src0 = Some src" and "0 \<le> n"
  shows "length src = length src0"
    and "\<forall>c. int c < n \<longrightarrow> c < length pixels \<and> c < length src0 \<and> src ! c = px_r (pixels ! c)"
proof -
  let ?I = "\<lambda>i s. length s = length src0
      \<and> (\<forall>c. int c < i \<longrightarrow> c < length pixels \<and> c < length src0 \<and> s ! c = px_r (pixels ! c))"
  have "?I (max 0 n) src"
  proof (rule for_loop_inv [OF assms(1) [unfolded extract_plane_def], where I = ?I])
    show "?I 0 src0" by simp
  next
    fix i t t'
    assume i: "0 \<le> i" and inv: "?I i t"
      and body: "do { p \<leftarrow> rd pixels i; wr t i (px_r p) } = Some t'"
    from body have b: "nat i < length pixels" "nat i < length t"
        and t': "t' = t[nat i := px_r (pixels ! nat i)]"
      by (auto simp add: bind_Some rd_Some wr_Some)
    have "c < length pixels \<and> c < length src0 \<and> t' ! c = px_r (pixels ! c)"
      if "int c < i + 1" for c
    proof (cases "c = nat i")
      case True
      with b inv show ?thesis by (simp add: t')
    next
      case False
      with that i have "int c < i" by linarith
      with inv False show ?thesis by (simp add: t')
    qed
    with inv show "?I (i + 1) t'" by (simp add: t')
  qed
  with assms(2) show "length src = length src0"
    and "\<forall>c. int c < n \<longrightarrow> c < length pixels \<and> c < length src0 \<and> src ! c = px_r (pixels ! c)"
    by simp_all
qed

lemma write_back_Some:
  assumes "write_back dst n pixels = Some out" and "0 \<le> n"
  shows "length out = length pixels"
    and "\<forall>c. int c < n \<longrightarrow> c < length dst \<and> c < length pixels
            \<and> out ! c = Pixel24 (dst ! c) (dst ! c) (dst ! c)"
    and "\<forall>c. n \<le> int c \<longrightarrow> out ! c = pixels ! c"
proof -
  let ?I = "\<lambda>i s. length s = length pixels
      \<and> (\<forall>c. int c < i \<longrightarrow> c < length dst \<and> c < length pixels
             \<and> s ! c = Pixel24 (dst ! c) (dst ! c) (dst ! c))
      \<and> (\<forall>c. i \<le> int c \<longrightarrow> s ! c = pixels ! c)"
  have "?I (max 0 n) out"
  proof (rule for_loop_inv [OF assms(1) [unfolded write_back_def], where I = ?I])
    show "?I 0 pixels" by simp
  next
    fix i t t'
    assume i: "0 \<le> i" and inv: "?I i t"
      and body: "do { v \<leftarrow> rd dst i; wr t i (Pixel24 v v v) } = Some t'"
    from body have b: "nat i < length dst" "nat i < length t"
        and t': "t' = t[nat i := Pixel24 (dst ! nat i) (dst ! nat i) (dst ! nat i)]"
      by (auto simp add: bind_Some rd_Some wr_Some)
    have one: "c < length dst \<and> c < length pixels
             \<and> t' ! c = Pixel24 (dst ! c) (dst ! c) (dst ! c)"
      if "int c < i + 1" for c
    proof (cases "c = nat i")
      case True
      with b inv show ?thesis by (simp add: t')
    next
      case False
      with that i have "int c < i" by linarith
      with inv False show ?thesis by (simp add: t')
    qed
    have two: "t' ! c = pixels ! c" if "i + 1 \<le> int c" for c
    proof -
      from that i have "c \<noteq> nat i" "i \<le> int c" by linarith+
      with inv show ?thesis by (simp add: t')
    qed
    from one two inv show "?I (i + 1) t'" by (simp add: t')
  qed
  with assms(2) show "length out = length pixels"
    and "\<forall>c. int c < n \<longrightarrow> c < length dst \<and> c < length pixels
            \<and> out ! c = Pixel24 (dst ! c) (dst ! c) (dst ! c)"
    and "\<forall>c. n \<le> int c \<longrightarrow> out ! c = pixels ! c"
    by simp_all
qed

lemma copy_cell_effect:
  assumes "copy_cell src w r c dst = Some dst'"
  shows "length dst' = length dst"
    and "dst' ! nat (r * w + c) = src ! nat (r * w + c)"
    and "\<And>j. dst ! j = src ! j \<Longrightarrow> dst' ! j = src ! j"
    and "\<And>j. j \<noteq> nat (r * w + c) \<Longrightarrow> dst' ! j = dst ! j"
proof -
  note cc = copy_cell_Some [OF assms]
  show "length dst' = length dst" by (simp add: cc(4))
  show "dst' ! nat (r * w + c) = src ! nat (r * w + c)" using cc(3) by (simp add: cc(4))
  show "dst' ! j = src ! j" if "dst ! j = src ! j" for j
    using that cc(3) by (cases "j = nat (r * w + c)") (simp_all add: cc(4))
  show "dst' ! j = dst ! j" if "j \<noteq> nat (r * w + c)" for j
    using that by (simp add: cc(4))
qed

text \<open>
  A loop that copies two cells of \<open>src\<close> per step: the cells \<open>p i\<close> and \<open>q i\<close> of every
  step hold the value of \<open>src\<close> afterwards, a cell that agreed with \<open>src\<close> still does,
  and no other cell has changed.
\<close>

lemma copy_loop:
  assumes "for_loop 0 n (\<lambda>i dst. do { dst \<leftarrow> copy_cell src w (r1 i) (c1 i) dst;
                                        copy_cell src w (r2 i) (c2 i) dst }) dst0 = Some dst"
    and "0 \<le> n"
  shows "length dst = length dst0"
    and "\<forall>i. 0 \<le> i \<and> i < n \<longrightarrow>
           dst ! nat (r1 i * w + c1 i) = src ! nat (r1 i * w + c1 i)
           \<and> dst ! nat (r2 i * w + c2 i) = src ! nat (r2 i * w + c2 i)"
    and "\<forall>j. dst0 ! j = src ! j \<longrightarrow> dst ! j = src ! j"
    and "\<forall>j. (\<forall>i. 0 \<le> i \<and> i < n \<longrightarrow> j \<noteq> nat (r1 i * w + c1 i) \<and> j \<noteq> nat (r2 i * w + c2 i))
           \<longrightarrow> dst ! j = dst0 ! j"
proof -
  let ?I = "\<lambda>m s. length s = length dst0
      \<and> (\<forall>i. 0 \<le> i \<and> i < m \<longrightarrow>
           s ! nat (r1 i * w + c1 i) = src ! nat (r1 i * w + c1 i)
           \<and> s ! nat (r2 i * w + c2 i) = src ! nat (r2 i * w + c2 i))
      \<and> (\<forall>j. dst0 ! j = src ! j \<longrightarrow> s ! j = src ! j)
      \<and> (\<forall>j. (\<forall>i. 0 \<le> i \<and> i < m \<longrightarrow> j \<noteq> nat (r1 i * w + c1 i) \<and> j \<noteq> nat (r2 i * w + c2 i))
           \<longrightarrow> s ! j = dst0 ! j)"
  have "?I (max 0 n) dst"
  proof (rule for_loop_inv [OF assms(1), where I = ?I])
    show "?I 0 dst0" by auto
  next
    fix i t t'
    assume i: "0 \<le> i" and inv: "?I i t"
      and body: "do { dst \<leftarrow> copy_cell src w (r1 i) (c1 i) t;
                      copy_cell src w (r2 i) (c2 i) dst } = Some t'"
    from body obtain u where u: "copy_cell src w (r1 i) (c1 i) t = Some u"
      and t': "copy_cell src w (r2 i) (c2 i) u = Some t'"
      by (auto simp add: bind_Some)
    note e1 = copy_cell_effect [OF u] and e2 = copy_cell_effect [OF t']
    have len: "length t' = length dst0" using e1(1) e2(1) inv by simp
    have keep: "t' ! j = src ! j" if "t ! j = src ! j" for j
      using that e1(3) e2(3) by blast
    have cells: "t' ! nat (r1 m * w + c1 m) = src ! nat (r1 m * w + c1 m)
           \<and> t' ! nat (r2 m * w + c2 m) = src ! nat (r2 m * w + c2 m)"
      if "0 \<le> m" "m < i + 1" for m
    proof (cases "m = i")
      case True
      then show ?thesis using e1(2) e2(2,3) by blast
    next
      case False
      with that have "m < i" by simp
      with that(1) inv keep show ?thesis by blast
    qed
    have others: "t' ! j = dst0 ! j"
      if "\<forall>m. 0 \<le> m \<and> m < i + 1 \<longrightarrow> j \<noteq> nat (r1 m * w + c1 m) \<and> j \<noteq> nat (r2 m * w + c2 m)"
      for j
    proof -
      from that i have here: "j \<noteq> nat (r1 i * w + c1 i)" "j \<noteq> nat (r2 i * w + c2 i)"
        by simp_all
      from that have "\<forall>m. 0 \<le> m \<and> m < i \<longrightarrow> j \<noteq> nat (r1 m * w + c1 m) \<and> j \<noteq> nat (r2 m * w + c2 m)"
        by simp
      with inv have "t ! j = dst0 ! j" by blast
      with here e1(4) e2(4) show ?thesis by simp
    qed
    from len cells keep others inv show "?I (i + 1) t'" by blast
  qed
  with assms(2) show "length dst = length dst0"
    and "\<forall>i. 0 \<le> i \<and> i < n \<longrightarrow>
           dst ! nat (r1 i * w + c1 i) = src ! nat (r1 i * w + c1 i)
           \<and> dst ! nat (r2 i * w + c2 i) = src ! nat (r2 i * w + c2 i)"
    and "\<forall>j. dst0 ! j = src ! j \<longrightarrow> dst ! j = src ! j"
    and "\<forall>j. (\<forall>i. 0 \<le> i \<and> i < n \<longrightarrow> j \<noteq> nat (r1 i * w + c1 i) \<and> j \<noteq> nat (r2 i * w + c2 i))
           \<longrightarrow> dst ! j = dst0 ! j"
    by simp_all
qed

lemma cell_inj:
  fixes w :: int
  assumes "0 \<le> c" "c < w" "0 \<le> c'" "c' < w" "r * w + c = r' * w + c'"
  shows "r = r'" and "c = c'"
proof -
  have "(r * w + c) div w = r" "(r' * w + c') div w = r'"
    using assms(1-4) by (simp_all add: div_pos_pos_trivial)
  with assms(5) show "r = r'" by simp
  with assms(5) show "c = c'" by simp
qed

lemma convolve_interior_Some:
  assumes "convolve_interior src w hm1 wm1 k sumk dst0 = Some dst"
    and "0 < w" "wm1 < w"
  shows "length dst = length dst0"
    and "\<forall>y x. 1 \<le> y \<and> y < hm1 \<and> 1 \<le> x \<and> x < wm1 \<longrightarrow>
           conv_value src w k sumk x y = Some (dst ! nat (y * w + x))"
proof -
  let ?done = "\<lambda>s y x. conv_value src w k sumk x y = Some (s ! nat (y * w + x))"
  let ?I = "\<lambda>y s. length s = length dst0
      \<and> (\<forall>y' x'. 1 \<le> y' \<and> y' < y \<and> 1 \<le> x' \<and> x' < wm1 \<longrightarrow> ?done s y' x')"
  have "?I (max 1 hm1) dst"
  proof (rule for_loop_inv [OF assms(1) [unfolded convolve_interior_def], where I = ?I])
    show "?I 1 dst0" by auto
  next
    fix y t t'
    assume y: "1 \<le> y" and inv: "?I y t"
      and row: "for_loop 1 wm1
          (\<lambda>x dst. do { v \<leftarrow> conv_value src w k sumk x y; i \<leftarrow> cell w y x; wr dst i v }) t
          = Some t'"
    let ?J = "\<lambda>x s. length s = length dst0
      \<and> (\<forall>y' x'. 1 \<le> y' \<and> y' < y \<and> 1 \<le> x' \<and> x' < wm1 \<longrightarrow> ?done s y' x')
      \<and> (\<forall>x'. 1 \<le> x' \<and> x' < x \<longrightarrow> ?done s y x')"
    have "?J (max 1 wm1) t'"
    proof (rule for_loop_inv [OF row, where I = ?J])
      show "?J 1 t" using inv by auto
    next
      fix x u u'
      assume x: "1 \<le> x" "x < wm1" and jnv: "?J x u"
        and body: "do { v \<leftarrow> conv_value src w k sumk x y; i \<leftarrow> cell w y x; wr u i v } = Some u'"
      from body obtain v where v: "conv_value src w k sumk x y = Some v"
        and u': "u' = u[nat (y * w + x) := v]" and b: "nat (y * w + x) < length u"
        by (auto simp add: bind_Some wr_Some dest!: cell_Some)
      have pos: "0 \<le> y' * w + x'" if "1 \<le> y'" "1 \<le> x'" for y' x'
        using that assms(2) by (simp add: add_nonneg_nonneg)
      have other: "u' ! nat (y' * w + x') = u ! nat (y' * w + x')"
        if "1 \<le> y'" "1 \<le> x'" "x' < wm1" "y' \<noteq> y \<or> x' \<noteq> x" for y' x'
      proof -
        have "y' * w + x' \<noteq> y * w + x"
          using cell_inj [of x' w x y' y] that x assms(3) by auto
        then have "nat (y' * w + x') \<noteq> nat (y * w + x)"
          using pos [OF that(1,2)] pos [OF y x(1)] by simp
        then show ?thesis by (simp add: u')
      qed
      have a: "?done u' y' x'" if "1 \<le> y'" "y' < y" "1 \<le> x'" "x' < wm1" for y' x'
        using other [of y' x'] that jnv by simp
      have b': "?done u' y x'" if "1 \<le> x'" "x' < x + 1" for x'
      proof (cases "x' = x")
        case True
        with v b show ?thesis by (simp add: u')
      next
        case False
        with that have lt: "x' < x" by simp
        with x have "x' < wm1" by simp
        with other [of y x'] that(1) y False lt jnv show ?thesis by simp
      qed
      from a b' jnv show "?J (x + 1) u'" by (simp add: u')
    qed
    then show "?I (y + 1) t'"
      by (auto simp add: max_def split: if_splits) (metis less_le not_less zless_add1_eq)+
  qed
  then show "length dst = length dst0"
    and "\<forall>y x. 1 \<le> y \<and> y < hm1 \<and> 1 \<le> x \<and> x < wm1 \<longrightarrow>
           conv_value src w k sumk x y = Some (dst ! nat (y * w + x))"
    by (auto simp add: max_def split: if_splits)
qed

lemma convolve3x3_Some:
  assumes "convolve3x3 (Some hsrc) (Some hdst) pixels w h k = Some out"
  defines "sz \<equiv> size_t (int (size_t w) * int (size_t h))"
  shows "\<exists>src d1 d2 d3.
           INT_MIN \<le> w * h \<and> w * h \<le> INT_MAX
         \<and> extract_plane pixels (w * h) (map hsrc [0..<sz]) = Some src
         \<and> convolve_interior src w (h - 1) (w - 1) k (norm_factor k) (map hdst [0..<sz]) = Some d1
         \<and> copy_rows src w (h - 1) d1 = Some d2
         \<and> copy_columns src w h (w - 1) d2 = Some d3
         \<and> write_back d3 (w * h) pixels = Some out"
  using assms(1) unfolding convolve3x3_def malloc_def Let_def sz_def [symmetric]
  by (auto simp add: bind_Some cint_eq_Some)

lemma convolve3x3_cells:
  assumes "convolve3x3 (Some hsrc) (Some hdst) pixels w h k = Some out"
    and "3 \<le> w" "3 \<le> h" "0 \<le> x" "x < w" "0 \<le> y" "y < h"
  shows "x = 0 \<or> x = w - 1 \<or> y = 0 \<or> y = h - 1 \<Longrightarrow>
           out ! nat (y * w + x) = gray_px (px_r (pixels ! nat (y * w + x)))"
    and "0 < x \<and> x < w - 1 \<and> 0 < y \<and> y < h - 1 \<Longrightarrow>
           \<exists>v. conv_value (map px_r (take (nat (w * h)) pixels)) w k (norm_factor k) x y = Some v
              \<and> out ! nat (y * w + x) = gray_px v"
proof -
  define sz where "sz = size_t (int (size_t w) * int (size_t h))"
  from convolve3x3_Some [OF assms(1), folded sz_def]
  obtain src d1 d2 d3 where n: "w * h \<le> INT_MAX"
    and ex: "extract_plane pixels (w * h) (map hsrc [0..<sz]) = Some src"
    and ci: "convolve_interior src w (h - 1) (w - 1) k (norm_factor k) (map hdst [0..<sz]) = Some d1"
    and cr: "copy_rows src w (h - 1) d1 = Some d2"
    and cc: "copy_columns src w h (w - 1) d2 = Some d3"
    and wb: "write_back d3 (w * h) pixels = Some out"
    by blast
  have w0: "0 < w" and h0: "0 < h" using assms(2,3) by simp_all
  have n0: "0 \<le> w * h" using w0 h0 by simp
  have "w * 1 \<le> w * h" using w0 h0 by (intro mult_left_mono) simp_all
  then have wmax: "w \<le> INT_MAX" using n by simp
  have "1 * h \<le> w * h" using w0 h0 by (intro mult_right_mono) simp_all
  then have hmax: "h \<le> INT_MAX" using n by simp
  have "w * h < 2 ^ 64" using n by (simp add: INT_MAX_def)
  then have sz: "sz = nat (w * h)"
    using w0 h0 wmax hmax n0 by (simp add: sz_def size_t_nat) (simp add: size_t_def)
  \<comment> \<open>the index of the cell\<close>
  let ?c = "nat (y * w + x)"
  have "y * w \<le> (h - 1) * w" using assms(7) w0 by (intro mult_right_mono) simp_all
  then have "y * w + x < h * w" using assms(5) by (simp add: algebra_simps)
  then have c: "int ?c < w * h"
    using assms(4,6) w0 by (simp add: mult.commute)
  note e = extract_plane_Some [OF ex n0]
  note i = convolve_interior_Some [OF ci w0]
  note r = copy_loop [OF cr [unfolded copy_rows_def]]
  note l = copy_loop [OF cc [unfolded copy_columns_def]]
  note b = write_back_Some [OF wb n0]
  from b(2) c have out: "out ! ?c = gray_px (d3 ! ?c)"
    by (simp add: gray_px_def)
  from e(2) c have src: "src ! ?c = px_r (pixels ! ?c)" by simp
  show "out ! ?c = gray_px (px_r (pixels ! ?c))"
    if border: "x = 0 \<or> x = w - 1 \<or> y = 0 \<or> y = h - 1"
  proof -
    have "d3 ! ?c = src ! ?c"
    proof -
      consider "y = 0" | "y = h - 1" | "x = 0" | "x = w - 1" using border by blast
      then show ?thesis
      proof cases
        case 1
        from r(2) w0 assms(4,5) have "d2 ! nat (0 * w + x) = src ! nat (0 * w + x)" by simp
        with l(3) h0 1 show ?thesis by simp
      next
        case 2
        from r(2) w0 assms(4,5) have "d2 ! nat ((h - 1) * w + x) = src ! nat ((h - 1) * w + x)"
          by simp
        with l(3) h0 2 show ?thesis by simp
      next
        case 3
        from l(2) h0 assms(6,7) have "d3 ! nat (y * w + 0) = src ! nat (y * w + 0)" by simp
        with 3 show ?thesis by simp
      next
        case 4
        from l(2) h0 assms(6,7) have "d3 ! nat (y * w + (w - 1)) = src ! nat (y * w + (w - 1))"
          by simp
        with 4 show ?thesis by simp
      qed
    qed
    with out src show ?thesis by simp
  qed
  show "\<exists>v. conv_value (map px_r (take (nat (w * h)) pixels)) w k (norm_factor k) x y = Some v
              \<and> out ! ?c = gray_px v"
    if "0 < x \<and> x < w - 1 \<and> 0 < y \<and> y < h - 1"
  proof -
    from that have xy: "1 \<le> x" "x < w - 1" "1 \<le> y" "y < h - 1" by simp_all
    have plane: "src = map px_r (take (nat (w * h)) pixels)"
    proof (rule nth_equalityI)
      have "nat (w * h) \<le> length pixels"
      proof (rule ccontr)
        assume "\<not> nat (w * h) \<le> length pixels"
        then have "int (length pixels) < w * h" by simp
        with e(2) show False by blast
      qed
      then show "length src = length (map px_r (take (nat (w * h)) pixels))"
        using e(1) by (simp add: sz)
      fix j assume "j < length src"
      then have "int j < w * h" using e(1) by (simp add: sz)
      with e(2) show "src ! j = map px_r (take (nat (w * h)) pixels) ! j"
        by simp
    qed
    from i(2) xy have cv: "conv_value src w k (norm_factor k) x y = Some (d1 ! ?c)"
      by simp
    have ne: "y' * w + x' \<noteq> y * w + x"
      if "0 \<le> x'" "x' < w" "y' \<noteq> y \<or> x' \<noteq> x" for y' x'
      using cell_inj [of x' w x y' y] that assms(4,5) by auto
    have neq: "?c \<noteq> nat (y' * w + x')"
      if "0 \<le> x'" "x' < w" "0 \<le> y'" "y' \<noteq> y \<or> x' \<noteq> x" for y' x'
    proof -
      have "0 \<le> y' * w + x'" using that w0 by simp
      moreover have "0 \<le> y * w + x" using assms(4,6) w0 by simp
      ultimately show ?thesis using ne [OF that(1,2,4)] by simp
    qed
    have "d2 ! ?c = d1 ! ?c"
    proof -
      have "?c \<noteq> nat (0 * w + i) \<and> ?c \<noteq> nat ((h - 1) * w + i)" if "0 \<le> i" "i < w" for i
      proof
        show "?c \<noteq> nat (0 * w + i)"
          using xy by (intro neq that) simp_all
        show "?c \<noteq> nat ((h - 1) * w + i)"
          using xy h0 by (intro neq that) simp_all
      qed
      with r(4) w0 show ?thesis by simp
    qed
    moreover have "d3 ! ?c = d2 ! ?c"
    proof -
      have "?c \<noteq> nat (i * w + 0) \<and> ?c \<noteq> nat (i * w + (w - 1))" if "0 \<le> i" "i < h" for i
      proof
        show "?c \<noteq> nat (i * w + 0)"
          using xy w0 that by (intro neq) simp_all
        show "?c \<noteq> nat (i * w + (w - 1))"
          using xy w0 that by (intro neq) simp_all
      qed
      with l(4) h0 show ?thesis by simp
    qed
    ultimately show ?thesis
      using cv out unfolding plane by simp
  qed
qed

lemmas conv_eval = convolve3x3_def extract_plane_def convolve_interior_def copy_rows_def
  copy_columns_def write_back_def for_loop_step for_loop_done rd_def wr_def cell_def
  copy_cell_def conv_value_def window_sum_def norm_factor_def kernel_sum_def kernel_of_def
  sobelX_def sobelY_def laplacian_def size_t_def malloc_def cint_def INT_MAX_def INT_MIN_def
  clamp_int_to_u8_def gray_px_def ex_image_def ex_src_heap_def ex_dst_heap_def

lemma ex_convolved:
  "convolve3x3 ex_src_heap ex_dst_heap ex_image 3 3 laplacian
     = Some (map gray_px [10, 10, 10, 10, 160, 10, 10, 10, 10])"
  by (simp add: conv_eval fp_eval2)

text \<open>
  Claim C4. In a buffer at least 3 by 3, convolved with any kernel, every pixel of the
  first and last row and column keeps its red channel, which after a completed
  convolution fills its three channels; every interior pixel is the convolution value
  computed from the red channels the buffer had on entry.
\<close>

theorem convolve3x3_borders_copied:
  assumes "convolve3x3 heap_src heap_dst pixels w h k = Some out"
    and "3 \<le> w" and "3 \<le> h" and "0 \<le> x" and "x < w" and "0 \<le> y" and "y < h"
  shows "(x = 0 \<or> x = w - 1 \<or> y = 0 \<or> y = h - 1 \<longrightarrow>
            px_r (out ! nat (y * w + x)) = px_r (pixels ! nat (y * w + x)))
     \<and> (heap_src \<noteq> None \<and> heap_dst \<noteq> None \<longrightarrow>
          (x = 0 \<or> x = w - 1 \<or> y = 0 \<or> y = h - 1 \<longrightarrow>
             out ! nat (y * w + x) = gray_px (px_r (pixels ! nat (y * w + x))))
        \<and> (0 < x \<and> x < w - 1 \<and> 0 < y \<and> y < h - 1 \<longrightarrow>
             (\<exists>v. conv_value (map px_r (take (nat (w * h)) pixels)) w k (norm_factor k) x y
                    = Some v
                \<and> out ! nat (y * w + x) = gray_px v)))"
proof (cases "heap_src \<noteq> None \<and> heap_dst \<noteq> None")
  case False
  then have "convolve3x3 heap_src heap_dst pixels w h k = Some pixels"
    by (auto simp add: convolve3x3_def malloc_def Let_def split: option.splits)
  with assms(1) have "out = pixels" by simp
  with False show ?thesis by auto
next
  case True
  then obtain hsrc hdst where hp: "heap_src = Some hsrc" "heap_dst = Some hdst" by auto
  note cells = convolve3x3_cells [OF assms(1) [unfolded hp] assms(2-7)]
  from cells True show ?thesis by (auto simp add: gray_px_def)
qed

theorem convolve3x3_borders_copied_witness:
  "convolve3x3 ex_src_heap ex_dst_heap ex_image 3 3 laplacian
     = Some (map gray_px [10, 10, 10, 10, 160, 10, 10, 10, 10])
   \<and> map gray_px [10, 10, 10, 10, 160, 10, 10, 10, 10] ! nat (0 * 3 + 2)
       = gray_px (px_r (ex_image ! nat (0 * 3 + 2)))
   \<and> conv_value (map px_r (take (nat (3 * 3)) ex_image)) 3 laplacian (norm_factor laplacian) 1 1
       = Some 160
   \<and> map gray_px [10, 10, 10, 10, 160, 10, 10, 10, 10] ! nat (1 * 3 + 1) = gray_px 160"
proof -
  have h: "ex_src_heap \<noteq> None \<and> ex_dst_heap \<noteq> None"
    by (simp add: ex_src_heap_def ex_dst_heap_def)
  from convolve3x3_borders_copied [OF ex_convolved, of 2 0] h
  have a: "map gray_px [10, 10, 10, 10, 160, 10, 10, 10, 10] ! nat (0 * 3 + 2)
       = gray_px (px_r (ex_image ! nat (0 * 3 + 2)))"
    by simp
  from convolve3x3_borders_copied [OF ex_convolved, of 1 1] h
  obtain v where v: "conv_value (map px_r (take (nat (3 * 3)) ex_image)) 3 laplacian
        (norm_factor laplacian) 1 1 = Some v"
    and o: "map gray_px [10, 10, 10, 10, 160, 10, 10, 10, 10] ! nat (1 * 3 + 1) = gray_px v"
    by auto
  from o have "v = 160" by (simp add: gray_px_def)
  with v o a ex_convolved show ?thesis by simp
qed

text \<open>
  Claim C10. When either call of \<open>malloc\<close> in \<open>convolve3x3\<close> fails, the function returns
  with the buffer as it was; the result is of the same form as after a completed
  convolution, so nothing tells the caller of the failure.
\<close>

theorem convolve3x3_alloc_failure:
  "heap_src = None \<or> heap_dst = None \<Longrightarrow>
     convolve3x3 heap_src heap_dst pixels width height k = Some pixels"
  by (auto simp add: convolve3x3_def malloc_def Let_def split: option.splits)

theorem convolve3x3_alloc_failure_witness:
  "(ex_src_heap = None \<or> (None :: (nat \<Rightarrow> byte) option) = None)
   \<and> convolve3x3 ex_src_heap None ex_image 3 3 laplacian = Some ex_image
   \<and> convolve3x3 None ex_dst_heap ex_image 3 3 laplacian = Some ex_image
   \<and> convolve3x3 None None ex_image 3 3 laplacian = Some ex_image"
  using convolve3x3_alloc_failure [of ex_src_heap None ex_image 3 3 laplacian]
    convolve3x3_alloc_failure [of None ex_dst_heap ex_image 3 3 laplacian]
    convolve3x3_alloc_failure [of None None ex_image 3 3 laplacian]
  by simp




lemma blen_upper: "n < 2 ^ blen n"
proof (induction n rule: blen.induct)
  case (1 n)
  show ?case
  proof (cases "n = 0")
    case True
    then show ?thesis by (simp add: blen.simps)
  next
    case False
    with 1 have "n div 2 < 2 ^ blen (n div 2)" by simp
    then have "n < 2 * 2 ^ blen (n div 2)" by linarith
    with False show ?thesis by (subst blen.simps) simp
  qed
qed

lemma blen_lower: "0 < n \<Longrightarrow> 2 ^ (blen n - 1) \<le> n"
proof (induction n rule: blen.induct)
  case (1 n)
  show ?case
  proof (cases "n div 2 = 0")
    case True
    with "1.prems" have "n = 1" by linarith
    then show ?thesis by (simp add: blen.simps)
  next
    case False
    then have pos: "0 < n div 2" by simp
    with 1 have ih: "2 ^ (blen (n div 2) - 1) \<le> n div 2" by simp
    from pos have "0 < blen (n div 2)" by (subst blen.simps) simp
    then have "(2::nat) ^ blen (n div 2) = 2 * 2 ^ (blen (n div 2) - 1)"
      by (cases "blen (n div 2)") simp_all
    with ih have "2 ^ blen (n div 2) \<le> n" by linarith
    with "1.prems" show ?thesis by (subst blen.simps) simp
  qed
qed

lemma pow2_pos: "0 < pow2 e"
  by (simp add: pow2_def)

lemma pow2_nat: "pow2 (int n) = 2 ^ n"
  by (simp add: pow2_def)

lemma pow2_add: "pow2 (a + b) = pow2 a * pow2 b"
proof -
  have "pow2 e = 2 powi e" for e
    by (simp add: pow2_def power_int_def field_simps)
  then show ?thesis by (simp add: power_int_add)
qed

lemma pow2_mono: "a \<le> b \<Longrightarrow> pow2 a \<le> pow2 b"
proof -
  assume "a \<le> b"
  then obtain n where b: "b = a + int n" by (metis zle_iff_zadd)
  have "1 \<le> (2::rat) ^ n" by simp
  then have "pow2 a * 1 \<le> pow2 a * 2 ^ n"
    using pow2_pos [of a] by (intro mult_left_mono) simp_all
  then show ?thesis by (simp add: b pow2_add pow2_nat)
qed

lemma pow2_less_imp: "pow2 a < pow2 b \<Longrightarrow> a < b"
  using pow2_mono [of b a] by (cases "a < b") simp_all

lemma pow2_le_imp: "pow2 a \<le> pow2 b \<Longrightarrow> a \<le> b"
proof (rule ccontr)
  assume le: "pow2 a \<le> pow2 b" and "\<not> a \<le> b"
  then have "b + 1 \<le> a" by simp
  then have "pow2 (b + 1) \<le> pow2 a" by (rule pow2_mono)
  moreover have "pow2 1 = 2" by (simp add: pow2_def)
  ultimately have "2 * pow2 b \<le> pow2 b" using le by (simp add: pow2_add)
  with pow2_pos [of b] show False by simp
qed

lemma ilog2_lower: "0 < a \<Longrightarrow> pow2 (ilog2 a) \<le> a"
proof (cases "1 \<le> a")
  case True
  define n where "n = nat \<lfloor>a\<rfloor>"
  have fl: "1 \<le> \<lfloor>a\<rfloor>" using True by (simp add: le_floor_iff)
  then have n: "0 < n" and nn: "(of_nat n :: rat) = of_int \<lfloor>a\<rfloor>"
    by (simp_all add: n_def)
  from blen_lower [OF n] have "(of_nat (2 ^ (blen n - 1)) :: rat) \<le> of_nat n"
    by (simp only: of_nat_le_iff)
  also have "\<dots> \<le> a" unfolding nn by (rule of_int_floor_le)
  finally have le: "(2::rat) ^ (blen n - 1) \<le> a" by simp
  from n have "0 < blen n" by (subst blen.simps) simp
  then have "int (blen n) - 1 = int (blen n - 1)" by simp
  moreover have "ilog2 a = int (blen n) - 1"
    using True by (simp add: ilog2_def n_def)
  ultimately have "ilog2 a = int (blen n - 1)" by (rule trans [rotated])
  then show ?thesis unfolding pow2_nat using le by (simp only: pow2_nat)
next
  case False
  assume a: "0 < a"
  define c where "c = \<lceil>1 / a\<rceil>"
  define n where "n = nat (c - 1)"
  from False a have "1 < 1 / a" by (simp add: field_simps)
  then have "of_int 1 < 1 / a" by simp
  then have "1 < c" unfolding c_def by (simp only: less_ceiling_iff)
  then have cn: "c = int n + 1" by (simp add: n_def)
  have "Suc n \<le> 2 ^ blen n" using blen_upper [of n] by (simp add: Suc_le_eq)
  then have "int (Suc n) \<le> int (2 ^ blen n)" by (simp only: of_nat_le_iff)
  then have "c \<le> 2 ^ blen n" using cn by simp
  then have "(of_int c :: rat) \<le> of_int (2 ^ blen n)" by (simp only: of_int_le_iff)
  moreover have "(of_int (2 ^ blen n) :: rat) = 2 ^ blen n" by simp
  moreover have "1 / a \<le> of_int c" unfolding c_def by (rule le_of_int_ceiling)
  ultimately have "1 / a \<le> 2 ^ blen n" by (metis order_trans)
  then have "1 \<le> 2 ^ blen n * a" using a by (simp add: field_simps)
  then have "1 / 2 ^ blen n \<le> a" by (simp add: field_simps)
  moreover have "pow2 (- int (blen n)) = 1 / 2 ^ blen n"
    by (simp add: pow2_def)
  ultimately show ?thesis using False by (simp add: ilog2_def n_def c_def)
qed

lemma round_even_near: "\<bar>of_int (round_even z) - z\<bar> \<le> 1 / 2"
proof -
  have "of_int \<lfloor>z\<rfloor> \<le> z" "z < of_int \<lfloor>z\<rfloor> + 1" by linarith+
  then show ?thesis
    by (auto simp add: round_even_def Let_def)
qed

lemma round_even_nonneg: "0 \<le> z \<Longrightarrow> 0 \<le> round_even z"
proof -
  assume "0 \<le> z"
  then have "0 \<le> \<lfloor>z\<rfloor>" by simp
  then show ?thesis by (auto simp add: round_even_def Let_def)
qed

lemma round_even_le: "z \<le> of_int N \<Longrightarrow> round_even z \<le> N"
proof -
  assume le: "z \<le> of_int N"
  have f: "of_int \<lfloor>z\<rfloor> \<le> z" by linarith
  show ?thesis
  proof (cases "z = of_int N")
    case True
    then show ?thesis by (simp add: round_even_def Let_def)
  next
    case False
    with le have "z < of_int N" by simp
    then have "\<lfloor>z\<rfloor> < N" by (simp add: floor_less_iff)
    then show ?thesis by (auto simp add: round_even_def Let_def)
  qed
qed

lemma pow2_Suc: "pow2 (e + 1) = 2 * pow2 e"
proof -
  have "pow2 1 = 2" by (simp add: pow2_def)
  then show ?thesis by (simp add: pow2_add)
qed

text \<open>
  Rounding a number between 0 and \<open>2^k\<close> stays there, and moves it by at most
  \<open>2^(k - p)\<close>: half the spacing of the format below \<open>2^(k+1)\<close>.
\<close>

lemma fp_round_bound:
  assumes "0 \<le> x" "x \<le> 2 ^ k" "int k \<le> emax" "1 \<le> emax" "1 \<le> p"
  shows "\<exists>y. fp_round p emax x = Finite y \<and> 0 \<le> y \<and> y \<le> 2 ^ k
            \<and> \<bar>y - x\<bar> \<le> pow2 (int k - int p)"
proof (cases "x = 0")
  case True
  then show ?thesis using pow2_pos [of "int k - int p"] by (simp add: fp_round_def)
next
  case False
  with assms(1) have x: "0 < x" by simp
  define e where "e = max (ilog2 x) (1 - emax)"
  define q where "q = pow2 (e - int p + 1)"
  define m where "m = round_even (x / q)"
  define y where "y = of_int m * q"
  have q: "0 < q" by (simp add: q_def pow2_pos)
  have "pow2 (ilog2 x) \<le> pow2 (int k)"
    using ilog2_lower [OF x] assms(2) by (simp add: pow2_nat)
  then have "ilog2 x \<le> int k" by (rule pow2_le_imp)
  then have e: "e \<le> int k" using assms(4) by (simp add: e_def)
  \<comment> \<open>the error\<close>
  have "\<bar>of_int m - x / q\<bar> \<le> 1 / 2" unfolding m_def by (rule round_even_near)
  then have "\<bar>of_int m - x / q\<bar> * q \<le> 1 / 2 * q"
    using q by (intro mult_right_mono) simp_all
  moreover have "\<bar>of_int m - x / q\<bar> * q = \<bar>y - x\<bar>"
  proof -
    have "(of_int m - x / q) * q = y - x" using q by (simp add: y_def field_simps)
    then have "\<bar>(of_int m - x / q) * q\<bar> = \<bar>y - x\<bar>" by simp
    then show ?thesis using q by (simp add: abs_mult)
  qed
  moreover have "1 / 2 * q = pow2 (e - int p)"
    using pow2_Suc [of "e - int p"] by (simp add: q_def)
  moreover have "pow2 (e - int p) \<le> pow2 (int k - int p)"
    using e by (intro pow2_mono) simp
  ultimately have err: "\<bar>y - x\<bar> \<le> pow2 (int k - int p)" by simp
  \<comment> \<open>the range\<close>
  have "0 \<le> x / q" using x q by simp
  then have "0 \<le> m" unfolding m_def by (rule round_even_nonneg)
  then have y0: "0 \<le> y" using q by (simp add: y_def)
  define N :: int where "N = 2 ^ nat (int k - e + int p - 1)"
  have "pow2 (int k) = pow2 (int k - e + int p - 1) * pow2 (e - int p + 1)"
    by (simp add: pow2_add [symmetric])
  moreover have "0 \<le> int k - e + int p - 1" using e assms(5) by simp
  ultimately have Nq: "2 ^ k = of_int N * q"
    by (simp add: pow2_nat q_def N_def) (simp add: pow2_def)
  have "x / q \<le> of_int N" using assms(2) q by (simp add: Nq field_simps)
  then have "m \<le> N" unfolding m_def by (rule round_even_le)
  then have "of_int m * q \<le> of_int N * q"
    using q by (intro mult_right_mono) simp_all
  then have yk: "y \<le> 2 ^ k" by (simp add: y_def Nq)
  have "pow2 (int k) \<le> pow2 emax" using assms(3) by (rule pow2_mono)
  moreover have "pow2 emax < pow2 (emax + 1)"
    using pow2_pos [of emax] by (simp add: pow2_Suc)
  ultimately have fin: "\<not> pow2 (emax + 1) \<le> y" using yk by (simp add: pow2_nat)
  have "fp_round p emax x = Finite y"
    using x fin
    by (simp add: fp_round_def Let_def e_def [symmetric] q_def [symmetric] m_def [symmetric]
          y_def [symmetric])
  with y0 yk err show ?thesis by blast
qed

lemma abs_add_le: "\<bar>a\<bar> \<le> x \<Longrightarrow> \<bar>b\<bar> \<le> y \<Longrightarrow> \<bar>a + b\<bar> \<le> x + (y :: rat)"
  by linarith

lemma dround_consts:
  "dround (299 / 1000) = Finite (5386305154335113 / 18014398509481984)"
  "dround (587 / 1000) = Finite (2643612981266481 / 4503599627370496)"
  "dround (114 / 1000) = Finite (8214565720323785 / 72057594037927936)"
  "dround (1 / 2) = Finite (1 / 2)"
  by (simp_all add: fp_eval2)

lemma dround_bound:
  assumes "0 \<le> x" "x \<le> 2 ^ k" "k \<le> 1023"
  shows "\<exists>y. dround x = Finite y \<and> 0 \<le> y \<and> y \<le> 2 ^ k \<and> \<bar>y - x\<bar> \<le> pow2 (int k - 53)"
  using fp_round_bound [OF assms(1,2), of 1023 53] assms(3) by (simp add: dround_def)

text \<open>
  The value before \<open>(int)\<close> is within \<open>2^-40\<close> of \<open>(299 r + 587 g + 114 b + 500) / 1000\<close>,
  and between 0 and 2048.
\<close>

lemma gray_sum_near:
  fixes R G B :: rat
  assumes "0 \<le> R" "R \<le> 255" "0 \<le> G" "G \<le> 255" "0 \<le> B" "B \<le> 255"
  shows "\<exists>s. dadd (dadd (dadd (dmul (dround (299 / 1000)) (Finite R))
                            (dmul (dround (587 / 1000)) (Finite G)))
                      (dmul (dround (114 / 1000)) (Finite B)))
                (dround (1 / 2)) = Finite s
           \<and> 0 \<le> s \<and> s \<le> 2048
           \<and> \<bar>s - (299 * R + 587 * G + 114 * B + 500) / 1000\<bar> \<le> 1 / 2 ^ 40"
proof -
  define c1 :: rat where "c1 = 5386305154335113 / 18014398509481984"
  define c2 :: rat where "c2 = 2643612981266481 / 4503599627370496"
  define c3 :: rat where "c3 = 8214565720323785 / 72057594037927936"
  have c1: "0 \<le> c1" "c1 \<le> 1 / 2" "\<bar>c1 - 299 / 1000\<bar> \<le> 1 / 2 ^ 54"
    and c2: "0 \<le> c2" "c2 \<le> 1" "\<bar>c2 - 587 / 1000\<bar> \<le> 1 / 2 ^ 54"
    and c3: "0 \<le> c3" "c3 \<le> 1 / 8" "\<bar>c3 - 114 / 1000\<bar> \<le> 1 / 2 ^ 54"
    by (simp_all add: c1_def c2_def c3_def)
  have x1: "0 \<le> c1 * R" "c1 * R \<le> 2 ^ 7"
  proof -
    show "0 \<le> c1 * R" using c1(1) assms(1) by simp
    have "c1 * R \<le> 1 / 2 * 255" using c1(1,2) assms(1,2) by (intro mult_mono) simp_all
    then show "c1 * R \<le> 2 ^ 7" by simp
  qed
  have x2: "0 \<le> c2 * G" "c2 * G \<le> 2 ^ 8"
  proof -
    show "0 \<le> c2 * G" using c2(1) assms(3) by simp
    have "c2 * G \<le> 1 * 255" using c2(1,2) assms(3,4) by (intro mult_mono) simp_all
    then show "c2 * G \<le> 2 ^ 8" by simp
  qed
  have x3: "0 \<le> c3 * B" "c3 * B \<le> 2 ^ 5"
  proof -
    show "0 \<le> c3 * B" using c3(1) assms(5) by simp
    have "c3 * B \<le> 1 / 8 * 255" using c3(1,2) assms(5,6) by (intro mult_mono) simp_all
    then show "c3 * B \<le> 2 ^ 5" by simp
  qed
  from dround_bound [OF x1, simplified] obtain p1 where
    p1: "dround (c1 * R) = Finite p1" "0 \<le> p1" "p1 \<le> 128" "\<bar>p1 - c1 * R\<bar> \<le> pow2 (- 46)"
    by auto
  from dround_bound [OF x2, simplified] obtain p2 where
    p2: "dround (c2 * G) = Finite p2" "0 \<le> p2" "p2 \<le> 256" "\<bar>p2 - c2 * G\<bar> \<le> pow2 (- 45)"
    by auto
  from dround_bound [OF x3, simplified] obtain p3 where
    p3: "dround (c3 * B) = Finite p3" "0 \<le> p3" "p3 \<le> 32" "\<bar>p3 - c3 * B\<bar> \<le> pow2 (- 48)"
    by auto
  have "0 \<le> p1 + p2" "p1 + p2 \<le> 2 ^ 9" using p1(2,3) p2(2,3) by simp_all
  from dround_bound [OF this, simplified] obtain s1 where
    s1: "dround (p1 + p2) = Finite s1" "0 \<le> s1" "s1 \<le> 512" "\<bar>s1 - (p1 + p2)\<bar> \<le> pow2 (- 44)"
    by auto
  have "0 \<le> s1 + p3" "s1 + p3 \<le> 2 ^ 10" using s1(2,3) p3(2,3) by simp_all
  from dround_bound [OF this, simplified] obtain s2 where
    s2: "dround (s1 + p3) = Finite s2" "0 \<le> s2" "s2 \<le> 1024" "\<bar>s2 - (s1 + p3)\<bar> \<le> pow2 (- 43)"
    by auto
  have "0 \<le> s2 + 1 / 2" "s2 + 1 / 2 \<le> 2 ^ 11" using s2(2,3) by simp_all
  from dround_bound [OF this, simplified] obtain s3 where
    s3: "dround (s2 + 1 / 2) = Finite s3" "0 \<le> s3" "s3 \<le> 2048"
      "\<bar>s3 - (s2 + 1 / 2)\<bar> \<le> pow2 (- 42)"
    by auto
  have val: "dadd (dadd (dadd (dmul (dround (299 / 1000)) (Finite R))
                            (dmul (dround (587 / 1000)) (Finite G)))
                      (dmul (dround (114 / 1000)) (Finite B)))
                (dround (1 / 2)) = Finite s3"
    unfolding dround_consts c1_def [symmetric] c2_def [symmetric] c3_def [symmetric]
    using p1(1) p2(1) p3(1) s1(1) s2(1) s3(1)
    by (simp add: dadd_def dmul_def dround_def)
  have pw: "pow2 (- 46) = 1 / 2 ^ 46" "pow2 (- 45) = 1 / 2 ^ 45" "pow2 (- 48) = 1 / 2 ^ 48"
    "pow2 (- 44) = 1 / 2 ^ 44" "pow2 (- 43) = 1 / 2 ^ 43" "pow2 (- 42) = 1 / 2 ^ 42"
    by (simp_all add: pow2_def)
  have d1: "\<bar>(c1 - 299 / 1000) * R\<bar> \<le> 1 / 2 ^ 54 * 255"
    unfolding abs_mult using c1(3) assms(1,2) by (intro mult_mono) simp_all
  have d2: "\<bar>(c2 - 587 / 1000) * G\<bar> \<le> 1 / 2 ^ 54 * 255"
    unfolding abs_mult using c2(3) assms(3,4) by (intro mult_mono) simp_all
  have d3: "\<bar>(c3 - 114 / 1000) * B\<bar> \<le> 1 / 2 ^ 54 * 255"
    unfolding abs_mult using c3(3) assms(5,6) by (intro mult_mono) simp_all
  have split: "s3 - (299 * R + 587 * G + 114 * B + 500) / 1000
      = (s3 - (s2 + 1 / 2)) + (s2 - (s1 + p3)) + (s1 - (p1 + p2))
        + (p1 - c1 * R) + (p2 - c2 * G) + (p3 - c3 * B)
        + (c1 - 299 / 1000) * R + (c2 - 587 / 1000) * G + (c3 - 114 / 1000) * B"
    by (simp add: algebra_simps)
  have "\<bar>s3 - (299 * R + 587 * G + 114 * B + 500) / 1000\<bar>
      \<le> 1 / 2 ^ 42 + 1 / 2 ^ 43 + 1 / 2 ^ 44 + 1 / 2 ^ 46 + 1 / 2 ^ 45 + 1 / 2 ^ 48
        + 1 / 2 ^ 54 * 255 + 1 / 2 ^ 54 * 255 + 1 / 2 ^ 54 * 255"
    unfolding split
    by (intro abs_add_le s3(4) [unfolded pw] s2(4) [unfolded pw] s1(4) [unfolded pw]
          p1(4) [unfolded pw] p2(4) [unfolded pw] p3(4) [unfolded pw] d1 d2 d3)
  also have "\<dots> \<le> 1 / 2 ^ 40" by simp
  finally have "\<bar>s3 - (299 * R + 587 * G + 114 * B + 500) / 1000\<bar> \<le> 1 / 2 ^ 40" .
  with val s3(2,3) show ?thesis by blast
qed

lemma uint_byte_range: "0 \<le> uint (v :: byte) \<and> uint v \<le> 255"
  using unsigned_less [of v, where ?'a = int] by simp

lemma byte_rat_range: "0 \<le> (of_int (uint (v :: byte)) :: rat) \<and> (of_int (uint v) :: rat) \<le> 255"
proof -
  from uint_byte_range [of v] have "0 \<le> uint v" "uint v \<le> 255" by blast+
  then have "(of_int 0 :: rat) \<le> of_int (uint v)" "(of_int (uint v) :: rat) \<le> of_int 255"
    by (simp_all only: of_int_le_iff)
  then show ?thesis by (simp only: of_int_0 of_int_numeral)
qed

lemma uint_clamp: "0 \<le> f \<Longrightarrow> f \<le> 255 \<Longrightarrow> uint (clamp_int_to_u8 f) = f"
  by (simp add: clamp_int_to_u8_def uint_word_of_int)

text \<open>
  The gray value is \<open>(299 r + 587 g + 114 b + 500) div 1000\<close>, the rounded luminance,
  unless the luminance ends in exactly one half: then it may be one less.
\<close>

lemma gray_of_exact:
  fixes r g b :: byte
  defines "N \<equiv> 299 * uint r + 587 * uint g + 114 * uint b + 500"
  shows "\<exists>v. gray_of r g b = Some v
           \<and> (uint v = N div 1000 \<or> (N mod 1000 = 0 \<and> uint v = N div 1000 - 1))"
proof -
  define R G B :: rat where "R = of_int (uint r)" and "G = of_int (uint g)"
    and "B = of_int (uint b)"
  have rng: "0 \<le> R" "R \<le> 255" "0 \<le> G" "G \<le> 255" "0 \<le> B" "B \<le> 255"
    using byte_rat_range [of r] byte_rat_range [of g] byte_rat_range [of b]
    unfolding R_def G_def B_def by blast+
  from gray_sum_near [OF rng] obtain s where
    val: "dadd (dadd (dadd (dmul (dround (299 / 1000)) (Finite R))
                            (dmul (dround (587 / 1000)) (Finite G)))
                      (dmul (dround (114 / 1000)) (Finite B)))
                (dround (1 / 2)) = Finite s"
    and s: "0 \<le> s" "s \<le> 2048"
    and near: "\<bar>s - (299 * R + 587 * G + 114 * B + 500) / 1000\<bar> \<le> 1 / 2 ^ 40"
    by blast
  define q m where "q = N div 1000" and "m = N mod 1000"
  have N: "N = 1000 * q + m" and m: "0 \<le> m" "m < 1000"
    by (simp_all add: q_def m_def)
  have Nr: "500 \<le> N" "N \<le> 255500"
    using uint_byte_range [of r] uint_byte_range [of g] uint_byte_range [of b]
    by (simp_all add: N_def)
  have q: "0 \<le> q" "q \<le> 255" using Nr N m by linarith+
  have "(299 * R + 587 * G + 114 * B + 500) / 1000 = of_int N / 1000"
    by (simp add: N_def R_def G_def B_def)
  also have "\<dots> = of_int q + of_int m / 1000" by (simp add: N)
  finally have E: "(299 * R + 587 * G + 114 * B + 500) / 1000 = of_int q + of_int m / 1000" .
  have small: "(1 :: rat) / 2 ^ 40 < 1 / 1000" by simp
  define f where "f = \<lfloor>s\<rfloor>"
  have f: "f = q \<or> (m = 0 \<and> f = q - 1)" and f0: "0 \<le> f" "f \<le> 255"
  proof -
    from near E have lo: "of_int q + of_int m / 1000 - 1 / 2 ^ 40 \<le> s"
      and hi: "s \<le> of_int q + of_int m / 1000 + 1 / 2 ^ 40"
      by linarith+
    have "m \<le> 999" using m by simp
    then have "(of_int m :: rat) \<le> of_int 999" by (simp only: of_int_le_iff)
    then have mr: "(of_int m :: rat) \<le> 999" by simp
    have "s < of_int q + 1" using hi mr small by linarith
    then have "s < of_int (q + 1)" by simp
    then have "f < q + 1" unfolding f_def by (simp only: floor_less_iff)
    then have up: "f \<le> q" by simp
    show "f = q \<or> (m = 0 \<and> f = q - 1)"
    proof (cases "m = 0")
      case True
      with lo small have "of_int (q - 1) \<le> s" by simp
      then have "q - 1 \<le> f" unfolding f_def by (simp only: le_floor_iff)
      with up True show ?thesis by linarith
    next
      case False
      with m have "1 \<le> m" by simp
      then have "(1 :: rat) \<le> of_int m" by simp
      with lo small have "of_int q \<le> s" by linarith
      then have "q \<le> f" unfolding f_def by (simp only: le_floor_iff)
      with up show ?thesis by simp
    qed
    then show "0 \<le> f" "f \<le> 255" using q Nr N by linarith+
  qed
  have "fp_to_int (Finite s) = Some f"
    using s(1) f0 by (simp add: f_def [symmetric] cint_def INT_MAX_def INT_MIN_def)
  then have "gray_of r g b = Some (clamp_int_to_u8 f)"
    unfolding gray_of_def fp_of_int_def R_def [symmetric] G_def [symmetric] B_def [symmetric] val
    by simp
  moreover have "uint (clamp_int_to_u8 f) = f" using f0 by (rule uint_clamp)
  ultimately show ?thesis using f unfolding q_def m_def by auto
qed

lemma spec_gray_div:
  "uint (spec_gray r g b) = (299 * uint r + 587 * uint g + 114 * uint b + 500) div 1000"
proof -
  define N where "N = 299 * uint r + 587 * uint g + 114 * uint b + 500"
  have "299 / 1000 * rat_of_int (uint r) + 587 / 1000 * rat_of_int (uint g)
          + 114 / 1000 * rat_of_int (uint b) + 1 / 2 = rat_of_int N / rat_of_int 1000"
    by (simp add: N_def)
  then have fl: "\<lfloor>299 / 1000 * rat_of_int (uint r) + 587 / 1000 * rat_of_int (uint g)
          + 114 / 1000 * rat_of_int (uint b) + 1 / 2\<rfloor> = N div 1000"
    by (simp only: floor_divide_of_int_eq)
  have "500 \<le> N" "N \<le> 255500"
    using uint_byte_range [of r] uint_byte_range [of g] uint_byte_range [of b]
    by (simp_all add: N_def)
  then have "0 \<le> N div 1000" "N div 1000 \<le> 255" by linarith+
  then show ?thesis
    unfolding spec_gray_def fl N_def [symmetric] by (rule uint_clamp)
qed

lemma gray_of_spec:
  "\<exists>v. gray_of r g b = Some v
       \<and> (v = spec_gray r g b \<or> (luma_tie r g b \<and> uint v = uint (spec_gray r g b) - 1))"
proof -
  define N where "N = 299 * uint r + 587 * uint g + 114 * uint b + 500"
  have s: "uint (spec_gray r g b) = N div 1000"
    unfolding N_def by (rule spec_gray_div)
  have t: "luma_tie r g b = (N mod 1000 = 0)"
    unfolding N_def by (rule luma_tie_def)
  from gray_of_exact [of r g b, folded N_def] obtain v where v: "gray_of r g b = Some v"
    and c: "uint v = N div 1000 \<or> (N mod 1000 = 0 \<and> uint v = N div 1000 - 1)"
    by (elim exE conjE)
  from c have "v = spec_gray r g b \<or> (luma_tie r g b \<and> uint v = uint (spec_gray r g b) - 1)"
    unfolding s t word_uint_eq_iff .
  with v show ?thesis by (intro exI conjI)
qed

lemma gray_of_gray: "gray_of v v v = Some v"
proof -
  have "(299 * uint v + 587 * uint v + 114 * uint v + 500) = 1000 * uint v + 500"
    by simp
  then have d: "(299 * uint v + 587 * uint v + 114 * uint v + 500) div 1000 = uint v"
    and m: "(299 * uint v + 587 * uint v + 114 * uint v + 500) mod 1000 \<noteq> 0"
    by simp_all
  from gray_of_exact [of v v v] obtain u where u: "gray_of v v v = Some u"
    and "uint u = uint v"
    unfolding d using m by auto
  then show ?thesis by (simp add: word_uint_eq_iff)
qed

lemma for_loop_total:
  assumes "I a s"
    and "\<And>i t. a \<le> i \<Longrightarrow> i < n \<Longrightarrow> I i t \<Longrightarrow> \<exists>t'. body i t = Some t' \<and> I (i + 1) t'"
  shows "\<exists>s'. for_loop a n body s = Some s'"
  using assms
proof (induction "nat (n - a)" arbitrary: a s)
  case 0
  then have "\<not> a < n" by simp
  then show ?case by (simp add: for_loop_done)
next
  case (Suc m)
  then have a: "a < n" by simp
  from Suc.prems(2) [of a s] a Suc.prems(1) obtain t where t: "body a s = Some t"
    and It: "I (a + 1) t" by auto
  have m: "m = nat (n - (a + 1))" using Suc.hyps(2) by simp
  have "\<exists>s'. for_loop (a + 1) n body t = Some s'"
  proof (rule Suc.hyps(1) [OF m It])
    fix i u assume "a + 1 \<le> i" "i < n" "I i u"
    then show "\<exists>t'. body i u = Some t' \<and> I (i + 1) t'"
      using Suc.prems(2) [of i u] by simp
  qed
  with a t show ?case by (simp add: for_loop_step)
qed

lemma for_loop_fix:
  assumes "\<And>i. a \<le> i \<Longrightarrow> i < n \<Longrightarrow> body i s = Some s"
  shows "for_loop a n body s = Some s"
  using assms
proof (induction "nat (n - a)" arbitrary: a)
  case 0
  then have "\<not> a < n" by simp
  then show ?case by (simp add: for_loop_done)
next
  case (Suc m)
  then have a: "a < n" by simp
  have m: "m = nat (n - (a + 1))" using Suc.hyps(2) by simp
  have "for_loop (a + 1) n body s = Some s"
  proof (rule Suc.hyps(1) [OF m])
    fix i assume "a + 1 \<le> i" "i < n"
    then show "body i s = Some s" using Suc.prems [of i] by simp
  qed
  with a Suc.prems [of a] show ?case by (simp add: for_loop_step)
qed

lemma to_grayscale_Some:
  assumes "to_grayscale pixels w h = Some out"
  shows "length out = length pixels"
    and "\<forall>j. int j < w * h \<longrightarrow> j < length pixels
           \<and> (\<exists>v. gray_of (px_r (pixels ! j)) (px_g (pixels ! j)) (px_b (pixels ! j)) = Some v
                  \<and> out ! j = Pixel24 v v v)"
    and "\<forall>j. w * h \<le> int j \<longrightarrow> out ! j = pixels ! j"
proof -
  let ?body = "\<lambda>i px. case rd px i of None \<Rightarrow> None
        | Some p \<Rightarrow> (case gray_of (px_r p) (px_g p) (px_b p) of None \<Rightarrow> None
             | Some g8 \<Rightarrow> wr px i (Pixel24 g8 g8 g8))"
  let ?I = "\<lambda>m s. length s = length pixels
      \<and> (\<forall>j. int j < m \<longrightarrow> j < length pixels
           \<and> (\<exists>v. gray_of (px_r (pixels ! j)) (px_g (pixels ! j)) (px_b (pixels ! j)) = Some v
                  \<and> s ! j = Pixel24 v v v))
      \<and> (\<forall>j. m \<le> int j \<longrightarrow> s ! j = pixels ! j)"
  from assms have loop: "for_loop 0 (w * h) ?body pixels = Some out"
    by (simp add: to_grayscale_def cint_def split: if_splits)
  have "?I (max 0 (w * h)) out"
  proof (rule for_loop_inv [where I = ?I, OF loop])
    show "?I 0 pixels" by simp
  next
    fix i t t'
    assume i: "0 \<le> i" "i < w * h" and I: "?I i t" and b: "?body i t = Some t'"
    from b obtain v where r: "0 \<le> i" "nat i < length t"
      and g: "gray_of (px_r (t ! nat i)) (px_g (t ! nat i)) (px_b (t ! nat i)) = Some v"
      and t': "t' = t[nat i := Pixel24 v v v]"
      by (auto simp add: rd_Some wr_Some split: option.splits)
    from I have ti: "t ! nat i = pixels ! nat i" using i(1) by simp
    have len: "length t' = length pixels" using I t' by simp
    have low: "j < length pixels
           \<and> (\<exists>v. gray_of (px_r (pixels ! j)) (px_g (pixels ! j)) (px_b (pixels ! j)) = Some v
                  \<and> t' ! j = Pixel24 v v v)" if "int j < i + 1" for j
    proof (cases "j = nat i")
      case True
      with r g ti I show ?thesis by (simp add: t')
    next
      case False
      with that i(1) have "int j < i" by linarith
      with I False show ?thesis by (simp add: t')
    qed
    have rest: "t' ! j = pixels ! j" if "i + 1 \<le> int j" for j
    proof -
      from that i(1) have "j \<noteq> nat i" "i \<le> int j" by linarith+
      with I show ?thesis by (simp add: t')
    qed
    from len low rest show "?I (i + 1) t'" by blast
  qed
  then have fin: "?I (max 0 (w * h)) out" .
  from fin show "length out = length pixels" by blast
  from fin show "\<forall>j. int j < w * h \<longrightarrow> j < length pixels
           \<and> (\<exists>v. gray_of (px_r (pixels ! j)) (px_g (pixels ! j)) (px_b (pixels ! j)) = Some v
                  \<and> out ! j = Pixel24 v v v)"
    by (simp add: max_def split: if_splits)
  from fin show "\<forall>j. w * h \<le> int j \<longrightarrow> out ! j = pixels ! j"
    by (simp add: max_def split: if_splits)
qed

lemma to_grayscale_total:
  assumes "INT_MIN \<le> w * h" and "w * h \<le> INT_MAX" and "w * h \<le> int (length pixels)"
  shows "\<exists>out. to_grayscale pixels w h = Some out"
proof -
  let ?body = "\<lambda>i px. case rd px i of None \<Rightarrow> None
        | Some p \<Rightarrow> (case gray_of (px_r p) (px_g p) (px_b p) of None \<Rightarrow> None
             | Some g8 \<Rightarrow> wr px i (Pixel24 g8 g8 g8))"
  let ?I = "\<lambda>(m :: int) (s :: Pixel24 list). 0 \<le> m \<and> length s = length pixels"
  have "\<exists>out. for_loop 0 (w * h) ?body pixels = Some out"
  proof (rule for_loop_total [where I = ?I])
    show "?I 0 pixels" by simp
  next
    fix i t
    assume i: "0 \<le> i" "i < w * h" and I: "?I i t"
    from i assms(3) have "i < int (length pixels)" by linarith
    with i(1) I have r: "nat i < length t" by (simp add: nat_less_iff)
    from gray_of_spec [of "px_r (t ! nat i)" "px_g (t ! nat i)" "px_b (t ! nat i)"]
    obtain v where g: "gray_of (px_r (t ! nat i)) (px_g (t ! nat i)) (px_b (t ! nat i)) = Some v"
      by blast
    from i(1) r g have "?body i t = Some (t[nat i := Pixel24 v v v])"
      by (simp add: rd_def wr_def)
    with i(1) I show "\<exists>t'. ?body i t = Some t' \<and> ?I (i + 1) t'" by simp
  qed
  with assms(1,2) show ?thesis by (simp add: to_grayscale_def cint_def)
qed

lemma to_grayscale_gray:
  assumes "INT_MIN \<le> w * h" and "w * h \<le> INT_MAX"
    and "\<forall>j. int j < w * h \<longrightarrow> j < length px \<and> (\<exists>v. px ! j = Pixel24 v v v)"
  shows "to_grayscale px w h = Some px"
proof -
  let ?body = "\<lambda>i px. case rd px i of None \<Rightarrow> None
        | Some p \<Rightarrow> (case gray_of (px_r p) (px_g p) (px_b p) of None \<Rightarrow> None
             | Some g8 \<Rightarrow> wr px i (Pixel24 g8 g8 g8))"
  have "for_loop 0 (w * h) ?body px = Some px"
  proof (rule for_loop_fix)
    fix i :: int assume i: "0 \<le> i" "i < w * h"
    then have "int (nat i) < w * h" by simp
    with assms(3) obtain v where r: "nat i < length px" and v: "px ! nat i = Pixel24 v v v"
      by blast
    from i(1) r v show "?body i px = Some px"
      by (simp add: rd_def wr_def gray_of_gray list_update_same_conv)
  qed
  with assms(1,2) show ?thesis by (simp add: to_grayscale_def cint_def)
qed

lemma gray_of_value:
  assumes "(299 * uint r + 587 * uint g + 114 * uint b + 500) div 1000 = uint v"
    and "(299 * uint r + 587 * uint g + 114 * uint b + 500) mod 1000 \<noteq> 0"
  shows "gray_of r g b = Some v"
proof -
  from gray_of_exact [of r g b] assms obtain u where u: "gray_of r g b = Some u"
    and "uint u = uint v"
    by auto
  then show ?thesis by (simp add: word_uint_eq_iff)
qed

lemma gray_of_samples:
  "gray_of 255 0 0 = Some 76" "gray_of 0 255 0 = Some 150" "gray_of 0 0 255 = Some 29"
  "gray_of 255 255 255 = Some 255"
  by (rule gray_of_value; simp)+

lemma gray_of_tie: "gray_of 0 36 12 = Some 22"
  by (simp add: gray_of_def fp_eval2 cint_def INT_MAX_def INT_MIN_def clamp_int_to_u8_def)

lemma spec_gray_tie: "spec_gray 0 36 12 = 23"
  by (simp add: word_uint_eq_iff spec_gray_div)

lemma to_grayscale_two:
  "to_grayscale [Pixel24 12 36 0, Pixel24 255 0 0] 2 1
     = Some [Pixel24 22 22 22, Pixel24 29 29 29]"
  by (simp add: to_grayscale_def cint_def INT_MAX_def INT_MIN_def for_loop_step for_loop_done
      rd_def wr_def gray_of_tie gray_of_samples)

text \<open>
  Claim C3. On a buffer of \<open>width * height\<close> pixels \<open>to_grayscale\<close> returns, and sets the
  three channels of every pixel to one value. That value is the luminance
  \<open>0.299 R + 0.587 G + 0.114 B\<close> plus one half with the fraction dropped, as the exact
  formula gives it, but for one case: when the luminance plus one half is a whole
  number, the sum rounded in \<open>double\<close> may fall just below it, and the value is then one
  less. Red, green, blue and white give 76, 150, 29 and 255.
\<close>

theorem to_grayscale_luminance:
  assumes "INT_MIN \<le> width * height" and "width * height \<le> INT_MAX"
    and "width * height \<le> int (length pixels)"
  shows "(\<exists>out. to_grayscale pixels width height = Some out
            \<and> length out = length pixels
            \<and> (\<forall>i. int i < width * height \<longrightarrow>
                  (\<exists>v. out ! i = Pixel24 v v v
                     \<and> (v = spec_gray (px_r (pixels ! i)) (px_g (pixels ! i)) (px_b (pixels ! i))
                        \<or> luma_tie (px_r (pixels ! i)) (px_g (pixels ! i)) (px_b (pixels ! i))
                          \<and> uint v = uint (spec_gray (px_r (pixels ! i)) (px_g (pixels ! i))
                                              (px_b (pixels ! i))) - 1)))
            \<and> (\<forall>i. width * height \<le> int i \<longrightarrow> out ! i = pixels ! i))
     \<and> gray_of 255 0 0 = Some 76 \<and> gray_of 0 255 0 = Some 150
     \<and> gray_of 0 0 255 = Some 29 \<and> gray_of 255 255 255 = Some 255"
proof -
  from to_grayscale_total [OF assms] obtain out
    where out: "to_grayscale pixels width height = Some out"
    by blast
  note s = to_grayscale_Some [OF out]
  have "\<exists>v. out ! i = Pixel24 v v v
          \<and> (v = spec_gray (px_r (pixels ! i)) (px_g (pixels ! i)) (px_b (pixels ! i))
             \<or> luma_tie (px_r (pixels ! i)) (px_g (pixels ! i)) (px_b (pixels ! i))
               \<and> uint v = uint (spec_gray (px_r (pixels ! i)) (px_g (pixels ! i))
                                   (px_b (pixels ! i))) - 1)"
    if "int i < width * height" for i
  proof -
    from s(2) that obtain v
      where g: "gray_of (px_r (pixels ! i)) (px_g (pixels ! i)) (px_b (pixels ! i)) = Some v"
        and o: "out ! i = Pixel24 v v v"
      by blast
    from gray_of_spec [of "px_r (pixels ! i)" "px_g (pixels ! i)" "px_b (pixels ! i)"] g o
    show ?thesis by auto
  qed
  with out s(1,3) gray_of_samples show ?thesis by blast
qed

theorem to_grayscale_luminance_witness:
  "INT_MIN \<le> 2 * 1 \<and> 2 * 1 \<le> INT_MAX
   \<and> 2 * 1 \<le> int (length [Pixel24 12 36 0, Pixel24 255 0 0])
   \<and> to_grayscale [Pixel24 12 36 0, Pixel24 255 0 0] 2 1
       = Some [Pixel24 22 22 22, Pixel24 29 29 29]
   \<and> luma_tie 0 36 12 \<and> uint (22 :: byte) = uint (spec_gray 0 36 12) - 1
   \<and> 29 = spec_gray 0 0 255"
proof -
  have a: "INT_MIN \<le> 2 * 1" "2 * 1 \<le> INT_MAX"
    "2 * 1 \<le> int (length [Pixel24 12 36 0, Pixel24 255 0 0])"
    by (simp_all add: INT_MIN_def INT_MAX_def)
  from to_grayscale_luminance [OF a]
  have "\<exists>out. to_grayscale [Pixel24 12 36 0, Pixel24 255 0 0] 2 1 = Some out
          \<and> length out = length [Pixel24 12 36 0, Pixel24 255 0 0]"
    by blast
  then have "to_grayscale [Pixel24 12 36 0, Pixel24 255 0 0] 2 1
       = Some [Pixel24 22 22 22, Pixel24 29 29 29]"
    using to_grayscale_two by simp
  moreover have "luma_tie 0 36 12" by (simp add: luma_tie_def)
  moreover have "uint (22 :: byte) = uint (spec_gray 0 36 12) - 1" by (simp add: spec_gray_div)
  moreover have "29 = spec_gray 0 0 255" by (simp add: word_uint_eq_iff spec_gray_div)
  ultimately show ?thesis using a by blast
qed

text \<open>
  The pixel with red 0, green 36 and blue 12 has luminance 22.5, so the exact formula
  gives 23; \<open>to_grayscale\<close> stores 22, the sum being 22.999999999999996 in \<open>double\<close>.
\<close>

theorem to_grayscale_below_formula:
  "to_grayscale [Pixel24 12 36 0] 1 1 = Some [Pixel24 22 22 22]
   \<and> spec_gray 0 36 12 = 23
   \<and> (299 / 1000 * 0 + 587 / 1000 * 36 + 114 / 1000 * 12 + 1 / 2 :: rat) = 23"
proof -
  have "to_grayscale [Pixel24 12 36 0] 1 1 = Some [Pixel24 22 22 22]"
    by (simp add: to_grayscale_def cint_def INT_MAX_def INT_MIN_def for_loop_step for_loop_done
        rd_def wr_def gray_of_tie)
  moreover have "(299 / 1000 * 0 + 587 / 1000 * 36 + 114 / 1000 * 12 + 1 / 2 :: rat) = 23"
    by simp
  ultimately show ?thesis using spec_gray_tie by blast
qed

text \<open>
  Claim C8. A pixel whose three channels are equal is left as it is, so a buffer that
  \<open>to_grayscale\<close> has produced is returned unchanged by a second call: twice is the same
  as once.
\<close>

theorem to_grayscale_idempotent:
  assumes "INT_MIN \<le> width * height" and "width * height \<le> INT_MAX"
    and "width * height \<le> int (length pixels)"
  shows "(\<exists>out. to_grayscale pixels width height = Some out
            \<and> to_grayscale out width height = Some out)
     \<and> gray_of v v v = Some v"
proof -
  from to_grayscale_total [OF assms] obtain out
    where out: "to_grayscale pixels width height = Some out"
    by blast
  note s = to_grayscale_Some [OF out]
  have "\<forall>j. int j < width * height \<longrightarrow> j < length out \<and> (\<exists>v. out ! j = Pixel24 v v v)"
    using s(1,2) by auto
  from to_grayscale_gray [OF assms(1,2) this] out gray_of_gray show ?thesis by blast
qed

theorem to_grayscale_idempotent_witness:
  "INT_MIN \<le> 2 * 1 \<and> 2 * 1 \<le> INT_MAX
   \<and> 2 * 1 \<le> int (length [Pixel24 12 36 0, Pixel24 255 0 0])
   \<and> to_grayscale [Pixel24 12 36 0, Pixel24 255 0 0] 2 1
       = Some [Pixel24 22 22 22, Pixel24 29 29 29]
   \<and> to_grayscale [Pixel24 22 22 22, Pixel24 29 29 29] 2 1
       = Some [Pixel24 22 22 22, Pixel24 29 29 29]"
proof -
  have a: "INT_MIN \<le> 2 * 1" "2 * 1 \<le> INT_MAX"
    "2 * 1 \<le> int (length [Pixel24 12 36 0, Pixel24 255 0 0])"
    by (simp_all add: INT_MIN_def INT_MAX_def)
  from to_grayscale_idempotent [OF a]
  have "\<exists>out. to_grayscale [Pixel24 12 36 0, Pixel24 255 0 0] 2 1 = Some out
          \<and> to_grayscale out 2 1 = Some out"
    by blast
  then have "to_grayscale [Pixel24 22 22 22, Pixel24 29 29 29] 2 1
       = Some [Pixel24 22 22 22, Pixel24 29 29 29]"
    using to_grayscale_two by simp
  with a to_grayscale_two show ?thesis by blast
qed













end
